theory Spec2Isabelle
  imports Complex_Main
begin

section \<open>Reconnection backoff of the feed connections\<close>

text \<open>
  \<^verbatim>\<open>MarketWebSocketFilter\<close> (fastUserActivityMonitor.ts) keeps two fields,
  \<^verbatim>\<open>reconnectDelay = 1000\<close> and \<^verbatim>\<open>maxReconnectDelay = 30000\<close>; the monitor's
  \<^verbatim>\<open>main\<close> keeps the same two values in closure variables. Both are in milliseconds.
  The handlers that touch them are
  \<^verbatim>\<open>
  ws.on('open',  () => { ...; reconnectDelay = 1000; ... });
  ws.on('close', () => { ...; setTimeout(connect, reconnectDelay);
                         reconnectDelay = Math.min(reconnectDelay * 2, maxReconnectDelay); });
  \<close>
  The connection state is a record; a handler takes the state and returns the new one.
  The close handler also returns the delay it handed to \<^verbatim>\<open>setTimeout\<close>.
\<close>

record conn_state =
  reconnectDelay :: nat

definition baseReconnectDelay :: nat where
  "baseReconnectDelay = 1000"

definition maxReconnectDelay :: nat where
  "maxReconnectDelay = 30000"

definition initial_conn :: conn_state where
  "initial_conn = \<lparr> reconnectDelay = baseReconnectDelay \<rparr>"

definition on_open :: "conn_state \<Rightarrow> conn_state" where
  "on_open s = s\<lparr> reconnectDelay := baseReconnectDelay \<rparr>"

definition on_close :: "conn_state \<Rightarrow> nat \<times> conn_state" where
  "on_close s =
     (reconnectDelay s,
      s\<lparr> reconnectDelay := min (reconnectDelay s * 2) maxReconnectDelay \<rparr>)"

text \<open>The delays observed over \<open>n\<close> consecutive closes, oldest first, and the state left.\<close>

fun closes :: "nat \<Rightarrow> conn_state \<Rightarrow> nat list \<times> conn_state" where
  "closes 0 s = ([], s)"
| "closes (Suc n) s =
     (case on_close s of (d, s') \<Rightarrow>
        (case closes n s' of (ds, s'') \<Rightarrow> (d # ds, s'')))"

section \<open>The bounded seen-set of dedup keys\<close>

text \<open>
  storeUserTradesRealtime.ts keeps, in its persisted \<^verbatim>\<open>State\<close>, the pair
  \<^verbatim>\<open>seenTxOrder: string[]\<close> and \<^verbatim>\<open>seenTxSet: Record<string, true>\<close>, and the constant
  \<^verbatim>\<open>MAX_SEEN_TX = 10000\<close>. Every connector runs the same inline block on a derived key
  (here as in \<^verbatim>\<open>connectUserWs\<close>; \<^verbatim>\<open>connectMarketWs\<close> repeats it on both of its branches):
  \<^verbatim>\<open>
  if (state.seenTxSet[dedupKey]) return;
  state.seenTxSet[dedupKey] = true;
  state.seenTxOrder.push(dedupKey);
  if (state.seenTxOrder.length > MAX_SEEN_TX) {
      const removeCount = state.seenTxOrder.length - MAX_SEEN_TX;
      const removed = state.seenTxOrder.splice(0, removeCount);
      for (const k of removed) delete state.seenTxSet[k];
  }
  \<close>
  The keys are strings in the source; nothing in the block looks inside a key, so the model
  leaves the key type open. The object used as a set is a set; the array is a list, oldest
  key first. The other fields of \<^verbatim>\<open>State\<close> are not touched by the block and are left out.
\<close>

record 'k seen_state =
  seenTxOrder :: "'k list"
  seenTxSet :: "'k set"

definition MAX_SEEN_TX :: nat where
  "MAX_SEEN_TX = 10000"

definition empty_seen :: "'k seen_state" where
  "empty_seen = \<lparr> seenTxOrder = [], seenTxSet = {} \<rparr>"

text \<open>
  The pruning block, shared by the per-event path and by the batch paths
  (\<^verbatim>\<open>upsertTrades\<close>, \<^verbatim>\<open>appendRestTradesUnified\<close>): \<^verbatim>\<open>splice(0, removeCount)\<close> cuts the first
  \<^verbatim>\<open>removeCount\<close> keys out of the array and returns them.
\<close>

definition pruneSeen :: "'k seen_state \<Rightarrow> 'k seen_state" where
  "pruneSeen s =
     (if length (seenTxOrder s) > MAX_SEEN_TX then
        (let removeCount = length (seenTxOrder s) - MAX_SEEN_TX;
             removed = take removeCount (seenTxOrder s)
         in \<lparr> seenTxOrder = drop removeCount (seenTxOrder s),
              seenTxSet = seenTxSet s - set removed \<rparr>)
      else s)"

text \<open>
  The whole inline block, which has no name of its own in the source: the result is
  whether the event goes on to the writer (\<open>False\<close> is the early \<^verbatim>\<open>return\<close>), and the state
  left behind.
\<close>

definition checkAndInsert :: "'k \<Rightarrow> 'k seen_state \<Rightarrow> bool \<times> 'k seen_state" where
  "checkAndInsert dedupKey s =
     (if dedupKey \<in> seenTxSet s then (False, s)
      else (True, pruneSeen \<lparr> seenTxOrder = seenTxOrder s @ [dedupKey],
                              seenTxSet = insert dedupKey (seenTxSet s) \<rparr>))"

text \<open>
  A connector handling a sequence of deliveries: the keys it lets through, in order, and
  the final state.
\<close>

fun deliver :: "'k list \<Rightarrow> 'k seen_state \<Rightarrow> 'k list \<times> 'k seen_state" where
  "deliver [] s = ([], s)"
| "deliver (k # ks) s =
     (case checkAndInsert k s of (accepted, s') \<Rightarrow>
        (case deliver ks s' of (out, s'') \<Rightarrow> ((if accepted then k # out else out), s'')))"

text \<open>
  The batch paths (\<^verbatim>\<open>upsertTrades\<close>, \<^verbatim>\<open>appendRestTradesUnified\<close>) skip a key that is resident
  or came earlier in the batch, record every other key without pruning, and prune once
  after the batch.
  \<^verbatim>\<open>
  if (opts.state.seenTxSet[key]) continue;
  ...
  opts.state.seenTxSet[key] = true;
  opts.state.seenTxOrder.push(key);
  \<close>
\<close>

definition recordSeen :: "'k seen_state \<Rightarrow> 'k \<Rightarrow> 'k seen_state" where
  "recordSeen s key =
     (if key \<in> seenTxSet s then s
      else \<lparr> seenTxOrder = seenTxOrder s @ [key], seenTxSet = insert key (seenTxSet s) \<rparr>)"

definition recordBatch :: "'k list \<Rightarrow> 'k seen_state \<Rightarrow> 'k seen_state" where
  "recordBatch keys s = pruneSeen (foldl recordSeen s keys)"

text \<open>
  The two structures describe the same keys: the set holds exactly the keys of the array,
  and no key is queued twice. The empty state has this property and the block keeps it.
\<close>

definition seen_consistent :: "'k seen_state \<Rightarrow> bool" where
  "seen_consistent s \<longleftrightarrow> distinct (seenTxOrder s) \<and> seenTxSet s = set (seenTxOrder s)"

text \<open>
  The user-feed monitor keeps a store of its own, the \<^verbatim>\<open>Set<string>\<close> named \<^verbatim>\<open>seenTrades\<close>. Its
  \<^verbatim>\<open>parseTradeFromMessage\<close> runs on every message
  \<^verbatim>\<open>
  if (seenTrades.has(dedupKey)) return null;
  seenTrades.add(dedupKey);
  if (seenTrades.size > 10000) {
      const keys = Array.from(seenTrades);
      seenTrades.clear();
      keys.slice(-5000).forEach(k => seenTrades.add(k));
  }
  \<close>
  and the polling loops of the hourly logger run the same cleanup once after each batch. A
  \<^verbatim>\<open>Set\<close> iterates in the order of insertion, so the model is the list of its keys, oldest
  first; \<^verbatim>\<open>slice(-5000)\<close> is the last 5000 of them. The result of the insertion is whether
  the message goes on (\<open>False\<close> is \<^verbatim>\<open>return null\<close>), and the set left behind.
\<close>

definition cleanupSeenTrades :: "'k list \<Rightarrow> 'k list" where
  "cleanupSeenTrades seenTrades =
     (if length seenTrades > 10000 then
        (let keys = seenTrades in drop (length keys - 5000) keys)
      else seenTrades)"

definition addSeenTrade :: "'k \<Rightarrow> 'k list \<Rightarrow> bool \<times> 'k list" where
  "addSeenTrade dedupKey seenTrades =
     (if dedupKey \<in> set seenTrades then (False, seenTrades)
      else (True, cleanupSeenTrades (seenTrades @ [dedupKey])))"

section \<open>File-name components\<close>

text \<open>
  storeUserTradesRealtime.ts:
  \<^verbatim>\<open>
  const sanitizeFileComponent = (input: string): string => {
      const cleaned = input
          .trim()
          .replace(/[^a-zA-Z0-9._-]+/g, '_')
          .replace(/^_+/, '')
          .replace(/_+$/, '');
      const safe = cleaned.length > 0 ? cleaned : 'unknown';
      return safe.slice(0, 140);
  };
  \<close>
  A string is a list of code units. The model covers the code units below 256 (the type
  \<^typ>\<open>char\<close>); of these, \<^verbatim>\<open>trim\<close> removes the white space and line terminators
  U+0009 to U+000D, U+0020 and U+00A0.
\<close>

definition isWhiteSpace :: "char \<Rightarrow> bool" where
  "isWhiteSpace c \<longleftrightarrow>
     (let n = (of_char c :: nat) in (9 \<le> n \<and> n \<le> 13) \<or> n = 32 \<or> n = 160)"

definition trim :: "string \<Rightarrow> string" where
  "trim s = rev (dropWhile isWhiteSpace (rev (dropWhile isWhiteSpace s)))"

text \<open>The character class \<^verbatim>\<open>[a-zA-Z0-9._-]\<close>.\<close>

definition isSafeChar :: "char \<Rightarrow> bool" where
  "isSafeChar c \<longleftrightarrow>
     (let n = (of_char c :: nat) in
        (97 \<le> n \<and> n \<le> 122) \<or> (65 \<le> n \<and> n \<le> 90) \<or> (48 \<le> n \<and> n \<le> 57)
        \<or> c = CHR ''.'' \<or> c = CHR ''_'' \<or> c = CHR ''-'')"

text \<open>
  \<^verbatim>\<open>.replace(/[^a-zA-Z0-9._-]+/g, '_')\<close>: every maximal run of characters outside the class
  becomes one underscore.
\<close>

function replaceUnsafe :: "string \<Rightarrow> string" where
  "replaceUnsafe [] = []"
| "replaceUnsafe (c # cs) =
     (if isSafeChar c then c # replaceUnsafe cs
      else CHR ''_'' # replaceUnsafe (dropWhile (\<lambda>d. \<not> isSafeChar d) cs))"
  by pat_completeness auto
termination
  by (relation "measure length") (auto simp: le_imp_less_Suc length_dropWhile_le)

text \<open>\<^verbatim>\<open>.replace(/^_+/, '')\<close> and \<^verbatim>\<open>.replace(/_+$/, '')\<close>.\<close>

definition stripLeadingUnderscores :: "string \<Rightarrow> string" where
  "stripLeadingUnderscores s = dropWhile (\<lambda>c. c = CHR ''_'') s"

definition stripTrailingUnderscores :: "string \<Rightarrow> string" where
  "stripTrailingUnderscores s = rev (dropWhile (\<lambda>c. c = CHR ''_'') (rev s))"

definition sanitizeFileComponent :: "string \<Rightarrow> string" where
  "sanitizeFileComponent input =
     (let cleaned = stripTrailingUnderscores (stripLeadingUnderscores (replaceUnsafe (trim input)));
          safe = (if length cleaned > 0 then cleaned else ''unknown'')
      in take 140 safe)"

section \<open>Promotion of finished markets to remote storage\<close>

text \<open>
  The hourly-market logger keeps four module-level maps and writes one line-delimited file
  per market (\<^verbatim>\<open>slug\<close>):
  \<^verbatim>\<open>
  const slugFileStreams = new Map<string, fs.WriteStream>();
  const slugLastActivity = new Map<string, number>();
  const slugEventCounts = new Map<string, number>();
  const slugEventBuffers = new Map<string, EventRecord[]>();
  \<close>
  The state of the model is these maps, the local files and the list of calls made to the
  storage client. \<^verbatim>\<open>slugLastActivity\<close> is iterated, so it is a list of pairs in insertion
  order; of a stream only its presence matters. A file is the list of the events on its
  lines. What lies outside the program is an argument: whether storage is configured,
  whether \<^verbatim>\<open>uploadToR2\<close> reports success for a key, and whether reading and unlinking a
  path succeed. One call of the uploader or of the check is one step of the model: events
  that arrive while an upload is awaited are not part of it, and writing a file is taken
  to succeed.
\<close>

record SlugEvent =
  se_receivedAtMs :: int
  se_data :: string

record upload_env =
  r2Configured :: bool
  r2Accepts :: "string \<Rightarrow> bool"
  unlinkSucceeds :: "string \<Rightarrow> bool"
  readSucceeds :: "string \<Rightarrow> bool"

record slug_state =
  files :: "string \<rightharpoonup> SlugEvent list"
  slugFileStreams :: "string set"
  slugLastActivity :: "(string \<times> int) list"
  slugEventCounts :: "string \<rightharpoonup> nat"
  slugEventBuffers :: "string \<rightharpoonup> SlugEvent list"
  r2Calls :: "(string \<times> SlugEvent list) list"

definition SLUG_INACTIVITY_THRESHOLD_MS :: int where
  "SLUG_INACTIVITY_THRESHOLD_MS = 5 * 60 * 1000"

text \<open>
  The logger's own \<^verbatim>\<open>sanitizeFileComponent\<close> has neither the fallback nor the cut:
  \<^verbatim>\<open>
  return input.trim().replace(/[^a-zA-Z0-9._-]+/g, '_').replace(/^_+/, '').replace(/_+$/, '');
  \<close>
\<close>

definition sanitizeSlug :: "string \<Rightarrow> string" where
  "sanitizeSlug input =
     stripTrailingUnderscores (stripLeadingUnderscores (replaceUnsafe (trim input)))"

text \<open>
  \<^verbatim>\<open>fileName = `${sanitizeFileComponent(slug)}.jsonl`\<close>; every file lies in the one directory
  \<^verbatim>\<open>ethereum_1h_data\<close>, so the file name stands for the path.
\<close>

definition slugFileName :: "string \<Rightarrow> string" where
  "slugFileName slug = sanitizeSlug slug @ ''.jsonl''"

definition r2KeyFor :: "string \<Rightarrow> string" where
  "r2KeyFor slug = ''ethereum_1h/'' @ sanitizeSlug slug @ ''/'' @ slugFileName slug"

text \<open>
  \<^verbatim>\<open>flushSlugBuffer\<close>: nothing to do without buffered events; otherwise the events of the
  file (none if it is missing or cannot be read) and the buffer are sorted by
  \<^verbatim>\<open>receivedAtMs\<close> and written back, the count grows and the buffer is emptied.
\<close>

definition flushSlugBuffer :: "upload_env \<Rightarrow> string \<Rightarrow> slug_state \<Rightarrow> slug_state" where
  "flushSlugBuffer env slug st =
     (case slugEventBuffers st slug of
        None \<Rightarrow> st
      | Some buffer \<Rightarrow>
          if length buffer = 0 then st
          else
            (let filePath = slugFileName slug;
                 existingEvents =
                   (case files st filePath of
                      None \<Rightarrow> []
                    | Some evs \<Rightarrow> if readSucceeds env filePath then evs else []);
                 sorted = sort_key se_receivedAtMs (existingEvents @ buffer);
                 count = (case slugEventCounts st slug of None \<Rightarrow> 0 | Some c \<Rightarrow> c) + length buffer
             in st\<lparr> files := (files st)(filePath \<mapsto> sorted),
                     slugEventCounts := (slugEventCounts st)(slug \<mapsto> count),
                     slugEventBuffers := (slugEventBuffers st)(slug \<mapsto> []) \<rparr>))"

text \<open>
  \<^verbatim>\<open>uploadSlugFileToR2\<close> returns whether the market was promoted. The local file is unlinked
  in the success branch only; a failing unlink is logged and the tracking is cleaned up all
  the same.
  \<^verbatim>\<open>
  const success = await uploadToR2({ key: r2Key, content, contentType: 'application/x-ndjson' });
  if (success) {
      ...
      try { fs.unlinkSync(filePath); } catch (err: any) { ... }
      slugLastActivity.delete(slug);
      slugEventCounts.delete(slug);
      return true;
  } else {
      return false;
  }
  \<close>
\<close>

definition uploadSlugFileToR2 :: "upload_env \<Rightarrow> string \<Rightarrow> slug_state \<Rightarrow> bool \<times> slug_state" where
  "uploadSlugFileToR2 env slug st0 =
     (let st = flushSlugBuffer env slug st0;
          fileName = slugFileName slug;
          filePath = fileName
      in case files st filePath of
           None \<Rightarrow> (False, st)
         | Some content \<Rightarrow>
             if \<not> readSucceeds env filePath then (False, st)
             else if length content = 0 then (False, st)
             else if r2Configured env then
               (let r2Key = r2KeyFor slug;
                    called = st\<lparr> r2Calls := r2Calls st @ [(r2Key, content)] \<rparr>
                in if r2Accepts env r2Key then
                     (True,
                      called\<lparr> slugFileStreams := slugFileStreams st - {slug},
                              files := (if unlinkSucceeds env filePath
                                        then (files st)(filePath := None) else files st),
                              slugLastActivity := filter (\<lambda>p. fst p \<noteq> slug) (slugLastActivity st),
                              slugEventCounts := (slugEventCounts st)(slug := None) \<rparr>)
                   else (False, called))
             else (False, st))"

text \<open>
  \<^verbatim>\<open>
  const checkAndUploadInactiveSlugs = async () => {
      const now = Date.now();
      const activeSlugs = Array.from(slugLastActivity.keys());
      const inactiveSlugs = activeSlugs.filter(slug => {
          const lastActivity = slugLastActivity.get(slug) || 0;
          return (now - lastActivity) >= SLUG_INACTIVITY_THRESHOLD_MS;
      });
      if (inactiveSlugs.length > 0 && activeSlugs.length > inactiveSlugs.length) {
          for (const slug of inactiveSlugs) { ...; await uploadSlugFileToR2(slug); }
      }
  };
  \<close>
  The source drops the boolean of each upload; the model returns the pairs of market and
  outcome, in the order of the loop, next to the state.
\<close>

definition inactiveSlugs :: "int \<Rightarrow> slug_state \<Rightarrow> string list" where
  "inactiveSlugs now st =
     filter
       (\<lambda>slug. now - (case map_of (slugLastActivity st) slug of None \<Rightarrow> 0 | Some lastActivity \<Rightarrow> lastActivity)
                  \<ge> SLUG_INACTIVITY_THRESHOLD_MS)
       (map fst (slugLastActivity st))"

definition promotionDue :: "int \<Rightarrow> slug_state \<Rightarrow> bool" where
  "promotionDue now st \<longleftrightarrow>
     length (inactiveSlugs now st) > 0
     \<and> length (map fst (slugLastActivity st)) > length (inactiveSlugs now st)"

fun uploadEach :: "upload_env \<Rightarrow> string list \<Rightarrow> slug_state \<Rightarrow> (string \<times> bool) list \<times> slug_state" where
  "uploadEach env [] st = ([], st)"
| "uploadEach env (slug # slugs) st =
     (case uploadSlugFileToR2 env slug st of
        (ok, st') \<Rightarrow>
          (case uploadEach env slugs st' of (outcomes, st'') \<Rightarrow> ((slug, ok) # outcomes, st'')))"

definition checkAndUploadInactiveSlugs ::
  "upload_env \<Rightarrow> int \<Rightarrow> slug_state \<Rightarrow> (string \<times> bool) list \<times> slug_state" where
  "checkAndUploadInactiveSlugs env now st =
     (if promotionDue now st then uploadEach env (inactiveSlugs now st) st else ([], st))"

text \<open>A state and an environment to run the check on: two markets, storage that accepts.\<close>

definition example_env :: upload_env where
  "example_env =
     \<lparr> r2Configured = True, r2Accepts = (\<lambda>key. True),
       unlinkSucceeds = (\<lambda>path. True), readSucceeds = (\<lambda>path. True) \<rparr>"

definition example_slugs :: slug_state where
  "example_slugs =
     \<lparr> files = [''eth-a.jsonl'' \<mapsto> [\<lparr> se_receivedAtMs = 0, se_data = ''{}'' \<rparr>],
                ''eth-b.jsonl'' \<mapsto> [\<lparr> se_receivedAtMs = 200000, se_data = ''{}'' \<rparr>]],
       slugFileStreams = {''eth-a'', ''eth-b''},
       slugLastActivity = [(''eth-a'', 0), (''eth-b'', 200000)],
       slugEventCounts = [''eth-a'' \<mapsto> 1, ''eth-b'' \<mapsto> 1],
       slugEventBuffers = Map.empty,
       r2Calls = [] \<rparr>"

text \<open>The same environment with storage that refuses every upload.\<close>

definition refusing_env :: upload_env where
  "refusing_env = example_env\<lparr> r2Accepts := (\<lambda>key. False) \<rparr>"

section \<open>The trade merger\<close>

text \<open>
  \<^verbatim>\<open>mergeTrades(restEvents, marketEvents, existingMerged)\<close> of the trade matcher joins the
  trades polled over REST with the market snapshots logged around them. Times are
  milliseconds since the epoch and are integers; prices and sizes are modelled as
  rationals, and no statement below depends on how they are rounded. Strings are lists of
  code units below 256. The source updates the records of \<^verbatim>\<open>existingMerged\<close> in place; the
  model passes values, and a second model with the records held in a store is given after
  it and shown to return the same list. The second argument is called \<open>marketLog\<close> below,
  since \<open>marketEvents\<close> is also the name of a field of the merged record.
\<close>

subsection \<open>Data\<close>

datatype src = market_ws | rest_poll | onchain | user_ws

text \<open>A parsed JSON value, for the open-ended \<^verbatim>\<open>data\<close> payload of an event.\<close>

datatype jsval =
    JUndefined
  | JNull
  | JBool bool
  | JNum rat
  | JStr string
  | JArr "jsval list"
  | JObj "(string \<times> jsval) list"

text \<open>
  \<^verbatim>\<open>interface EventRecord\<close>, with the optional fields that the merger reads. An absent or
  \<^verbatim>\<open>undefined\<close> field is \<open>None\<close>.
\<close>

record EventRecord =
  ev_t :: int
  ev_recv :: int
  ev_src :: src
  ev_slug :: "string option"
  ev_cid :: "string option"
  ev_aid :: "string option"
  ev_type :: string
  ev_tx :: "string option"
  ev_price :: "rat option"
  ev_size :: "rat option"
  ev_usdc :: "rat option"
  ev_side :: "string option"
  ev_outcome :: "string option"
  ev_asset :: "string option"
  ev_bestBid :: "rat option"
  ev_bestAsk :: "rat option"
  ev_mid :: "rat option"
  ev_spread :: "rat option"
  ev_id :: "string option"
  ev_endpoint :: "string option"
  ev_data :: "(string \<times> jsval) list option"

record MarketSnapshot =
  ms_t :: int
  ms_bestBid :: "rat option"
  ms_bestAsk :: "rat option"
  ms_mid :: "rat option"
  ms_spread :: "rat option"
  ms_price :: "rat option"

text \<open>An entry of \<^verbatim>\<open>MergedTrade.marketEvents\<close>.\<close>

record RawMarketEvent =
  raw_t :: int
  raw_type :: string
  raw_price :: "rat option"
  raw_bestBid :: "rat option"
  raw_bestAsk :: "rat option"
  raw_mid :: "rat option"
  raw_spread :: "rat option"
  raw_side :: "string option"

record SummaryStats =
  bidMin :: "rat option"
  bidMax :: "rat option"
  bidAvg :: "rat option"
  askMin :: "rat option"
  askMax :: "rat option"
  askAvg :: "rat option"
  spreadMin :: "rat option"
  spreadMax :: "rat option"
  spreadAvg :: "rat option"
  midMin :: "rat option"
  midMax :: "rat option"
  midAvg :: "rat option"
  priceChangeCount :: nat
  lastTradePriceCount :: nat

record RawDataRef =
  eventsFile :: string
  firstEventTime :: int
  lastEventTime :: int

record MarketSummary =
  windowMs :: int
  eventCount :: nat
  beforeTrade :: "MarketSnapshot list option"
  afterTrade :: "MarketSnapshot list option"
  atTrade :: "MarketSnapshot option"
  stats :: SummaryStats
  rawDataRef :: RawDataRef

text \<open>
  \<^verbatim>\<open>interface MergedTrade\<close>. The \<^verbatim>\<open>rest\<close> object is built from an object literal followed
  by a spread of the event's \<^verbatim>\<open>data\<close>, so it is kept as a list of properties in
  insertion order.
\<close>

record MergedTrade =
  tx :: string
  slug :: string
  timestamp :: int
  timestampMs :: int
  receivedAtMs :: int
  rest :: "(string \<times> jsval) list option"
  marketSummary :: "MarketSummary option"
  marketEvents :: "RawMarketEvent list option"

definition SNAPSHOTS_BEFORE_TRADE :: nat where
  "SNAPSHOTS_BEFORE_TRADE = 10"

definition SNAPSHOTS_AFTER_TRADE :: nat where
  "SNAPSHOTS_AFTER_TRADE = 10"

definition MARKET_WINDOW_MS :: int where
  "MARKET_WINDOW_MS = 3000"

definition MAX_RAW_EVENTS_PER_TRADE :: nat where
  "MAX_RAW_EVENTS_PER_TRADE = 100"

subsection \<open>Strings, truthiness, objects\<close>

text \<open>
  \<^verbatim>\<open>String.prototype.toLowerCase\<close> on code units below 256: the ASCII capitals and the
  Latin-1 capitals U+00C0 to U+00DE (without the multiplication sign U+00D7) move up by 32.
\<close>

definition toLowerChar :: "char \<Rightarrow> char" where
  "toLowerChar c =
     (let n = (of_char c :: nat) in
        if (65 \<le> n \<and> n \<le> 90) \<or> (192 \<le> n \<and> n \<le> 222 \<and> n \<noteq> 215)
        then char_of (n + 32) else c)"

definition toLowerCase :: "string \<Rightarrow> string" where
  "toLowerCase s = map toLowerChar s"

text \<open>Truthiness of an optional string (\<^verbatim>\<open>!event.tx\<close>, \<^verbatim>\<open>a || b\<close>) and of a JSON value.\<close>

fun truthyStr :: "string option \<Rightarrow> bool" where
  "truthyStr None = False"
| "truthyStr (Some s) = (s \<noteq> [])"

fun truthy :: "jsval \<Rightarrow> bool" where
  "truthy JUndefined = False"
| "truthy JNull = False"
| "truthy (JBool b) = b"
| "truthy (JNum n) = (n \<noteq> 0)"
| "truthy (JStr s) = (s \<noteq> [])"
| "truthy (JArr xs) = True"
| "truthy (JObj ps) = True"

fun numVal :: "rat option \<Rightarrow> jsval" where
  "numVal None = JUndefined"
| "numVal (Some n) = JNum n"

fun strVal :: "string option \<Rightarrow> jsval" where
  "strVal None = JUndefined"
| "strVal (Some s) = JStr s"

text \<open>
  Setting a property: an existing key keeps its place and takes the new value, a new key
  goes to the end. The same function is the \<^verbatim>\<open>set\<close> of a \<^verbatim>\<open>Map\<close>, whose iteration order is
  insertion order.
\<close>

fun setProp :: "'k \<Rightarrow> 'v \<Rightarrow> ('k \<times> 'v) list \<Rightarrow> ('k \<times> 'v) list" where
  "setProp k v [] = [(k, v)]"
| "setProp k v (p # ps) = (if fst p = k then (k, v) # ps else p # setProp k v ps)"

definition spread :: "(string \<times> jsval) list \<Rightarrow> (string \<times> jsval) list \<Rightarrow> (string \<times> jsval) list" where
  "spread obj extra = foldl (\<lambda>acc (k, v). setProp k v acc) obj extra"

subsection \<open>The REST part of a merged trade\<close>

text \<open>
  \<^verbatim>\<open>
  const endpoint = (event as any).endpoint || (event as any).data?.endpoint || '/activity';
  \<close>
\<close>

definition endpointOf :: "EventRecord \<Rightarrow> jsval" where
  "endpointOf event =
     (if truthyStr (ev_endpoint event) then strVal (ev_endpoint event)
      else (case ev_data event of
              None \<Rightarrow> JStr ''/activity''
            | Some d \<Rightarrow>
                (case map_of d ''endpoint'' of
                   None \<Rightarrow> JStr ''/activity''
                 | Some v \<Rightarrow> if truthy v then v else JStr ''/activity'')))"

text \<open>
  \<^verbatim>\<open>
  { price: event.price, size: event.size, usdc: event.usdc, side: event.side,
    outcome: event.outcome, asset: event.aid || event.asset, assetId: event.aid,
    conditionId: event.cid, id: (event as any).id, timestamp: event.t,
    endpoint: endpoint, ...(event as any).data }
  \<close>
\<close>

definition restOf :: "EventRecord \<Rightarrow> (string \<times> jsval) list" where
  "restOf event =
     spread
       [(''price'', numVal (ev_price event)),
        (''size'', numVal (ev_size event)),
        (''usdc'', numVal (ev_usdc event)),
        (''side'', strVal (ev_side event)),
        (''outcome'', strVal (ev_outcome event)),
        (''asset'', strVal (if truthyStr (ev_aid event) then ev_aid event else ev_asset event)),
        (''assetId'', strVal (ev_aid event)),
        (''conditionId'', strVal (ev_cid event)),
        (''id'', strVal (ev_id event)),
        (''timestamp'', JNum (of_int (ev_t event))),
        (''endpoint'', endpointOf event)]
       (case ev_data event of None \<Rightarrow> [] | Some d \<Rightarrow> d)"

text \<open>The loop over \<^verbatim>\<open>existingMerged\<close>: one record per lower-cased hash, the earliest wins.\<close>

definition loadExisting ::
  "(string \<times> MergedTrade) list \<Rightarrow> MergedTrade \<Rightarrow> (string \<times> MergedTrade) list" where
  "loadExisting merged trade =
     (if tx trade \<noteq> [] then
        (let txLower = toLowerCase (tx trade) in
           case map_of merged txLower of
             None \<Rightarrow> setProp txLower trade merged
           | Some existing \<Rightarrow>
               if timestampMs trade < timestampMs existing then setProp txLower trade merged
               else merged)
      else merged)"

text \<open>
  The loop over \<^verbatim>\<open>restEvents\<close>. In the update branch
  \<^verbatim>\<open>existing.timestampMs || event.t\<close> reads a stored \<^verbatim>\<open>0\<close> as absent.
\<close>

definition updateExisting :: "MergedTrade \<Rightarrow> EventRecord \<Rightarrow> MergedTrade" where
  "updateExisting existing event =
     existing\<lparr> rest := Some (restOf event),
               timestamp := min (timestamp existing) (ev_t event),
               timestampMs :=
                 min (if timestampMs existing \<noteq> 0 then timestampMs existing else ev_t event)
                     (ev_t event),
               receivedAtMs := max (receivedAtMs existing) (ev_recv event) \<rparr>"

definition createNew :: "EventRecord \<Rightarrow> MergedTrade" where
  "createNew event =
     \<lparr> tx = the (ev_tx event),
       slug = (if truthyStr (ev_slug event) then the (ev_slug event) else ''unknown''),
       timestamp = ev_t event,
       timestampMs = ev_t event,
       receivedAtMs = ev_recv event,
       rest = Some (restOf event),
       marketSummary = None,
       marketEvents = None \<rparr>"

definition processRest ::
  "(string \<times> MergedTrade) list \<Rightarrow> EventRecord \<Rightarrow> (string \<times> MergedTrade) list" where
  "processRest merged event =
     (if ev_src event \<noteq> rest_poll \<or> \<not> truthyStr (ev_tx event) then merged
      else
        (let txLower = toLowerCase (the (ev_tx event)) in
           case map_of merged txLower of
             Some existing \<Rightarrow> setProp txLower (updateExisting existing event) merged
           | None \<Rightarrow> setProp txLower (createNew event) merged))"

subsection \<open>Market context around a trade\<close>

text \<open>
  The body of the loop \<^verbatim>\<open>for (const trade of merged.values())\<close>. The window width is the
  module constant \<^verbatim>\<open>MARKET_WINDOW_MS\<close>; it is an argument here, so that a property can also
  be stated for another width.
  \<^verbatim>\<open>
  for (const marketEvent of marketEvents) {
      if (marketEvent.src !== 'market_ws') continue;
      if (marketEvent.t >= windowStart && marketEvent.t <= windowEnd) windowEvents.push(marketEvent);
  }
  \<close>
\<close>

definition inWindow :: "int \<Rightarrow> int \<Rightarrow> EventRecord \<Rightarrow> bool" where
  "inWindow windowStart windowEnd marketEvent \<longleftrightarrow>
     ev_src marketEvent = market_ws
     \<and> ev_t marketEvent \<ge> windowStart \<and> ev_t marketEvent \<le> windowEnd"

definition collectWindow :: "int \<Rightarrow> int \<Rightarrow> EventRecord list \<Rightarrow> EventRecord list" where
  "collectWindow windowStart windowEnd marketLog =
     filter (inWindow windowStart windowEnd) marketLog"

text \<open>
  The search for the closest snapshot. The accumulator is the pair
  \<^verbatim>\<open>(closestEvent, minDiff)\<close>; \<open>None\<close> is its start \<^verbatim>\<open>(null, Infinity)\<close>, below which
  every difference lies.
\<close>

fun findClosest ::
  "int \<Rightarrow> EventRecord list \<Rightarrow> (EventRecord \<times> int) option \<Rightarrow> (EventRecord \<times> int) option" where
  "findClosest tradeTime [] acc = acc"
| "findClosest tradeTime (marketEvent # es) acc =
     (if ev_src marketEvent \<noteq> market_ws then findClosest tradeTime es acc
      else
        (let diff = \<bar>ev_t marketEvent - tradeTime\<bar> in
           case acc of
             None \<Rightarrow> findClosest tradeTime es (Some (marketEvent, diff))
           | Some (closestEvent, minDiff) \<Rightarrow>
               if diff < minDiff then findClosest tradeTime es (Some (marketEvent, diff))
               else findClosest tradeTime es acc))"

text \<open>
  The events gathered for one trade: the primary window, or, when it is empty, the window
  around the closest snapshot if that one is at most 30000 ms away. The sort is stable and
  compares \<^verbatim>\<open>a.t - b.t\<close>.
\<close>

definition windowEventsFor :: "int \<Rightarrow> EventRecord list \<Rightarrow> int \<Rightarrow> EventRecord list" where
  "windowEventsFor W marketLog tradeTime =
     (let windowStart = tradeTime - W;
          windowEnd = tradeTime + W;
          windowEvents = collectWindow windowStart windowEnd marketLog
      in if length windowEvents = 0 \<and> length marketLog > 0 then
           (case findClosest tradeTime marketLog None of
              None \<Rightarrow> windowEvents
            | Some (closestEvent, minDiff) \<Rightarrow>
                if minDiff \<le> 30000 then
                  (let extendedWindowStart = max (ev_t closestEvent - W) (tradeTime - 10000);
                       extendedWindowEnd = min (ev_t closestEvent + W) (tradeTime + 10000)
                   in sort_key ev_t
                        (windowEvents
                         @ collectWindow extendedWindowStart extendedWindowEnd marketLog))
                else windowEvents)
         else windowEvents)"

definition snapshotOf :: "EventRecord \<Rightarrow> MarketSnapshot" where
  "snapshotOf event =
     \<lparr> ms_t = ev_t event, ms_bestBid = ev_bestBid event, ms_bestAsk = ev_bestAsk event,
       ms_mid = ev_mid event, ms_spread = ev_spread event, ms_price = ev_price event \<rparr>"

definition rawOf :: "EventRecord \<Rightarrow> RawMarketEvent" where
  "rawOf e =
     \<lparr> raw_t = ev_t e, raw_type = ev_type e, raw_price = ev_price e,
       raw_bestBid = ev_bestBid e, raw_bestAsk = ev_bestAsk e, raw_mid = ev_mid e,
       raw_spread = ev_spread e, raw_side = ev_side e \<rparr>"

text \<open>
  \<^verbatim>\<open>
  const calcStats = (arr: number[]) => {
      if (arr.length === 0) return undefined;
      const min = Math.min(...arr);
      const max = Math.max(...arr);
      const avg = arr.reduce((a, b) => a + b, 0) / arr.length;
      return { min, max, avg: Math.round(avg * 10000) / 10000 };
  };
  \<close>
  \<^verbatim>\<open>Math.round\<close> rounds to the nearest integer, a half upwards.
\<close>

definition calcStats :: "rat list \<Rightarrow> (rat \<times> rat \<times> rat) option" where
  "calcStats arr =
     (case arr of
        [] \<Rightarrow> None
      | x # xs \<Rightarrow>
          (let mn = fold min xs x;
               mx = fold max xs x;
               avg = foldl (+) 0 arr / of_nat (length arr)
           in Some (mn, mx, of_int \<lfloor>avg * 10000 + 1 / 2\<rfloor> / 10000)))"

definition summaryOf :: "int \<Rightarrow> int \<Rightarrow> EventRecord list \<Rightarrow> MarketSummary" where
  "summaryOf W tradeTime windowEvents =
     (let eventsBefore = map snapshotOf (filter (\<lambda>event. ev_t event < tradeTime) windowEvents);
          eventsAfter = map snapshotOf (filter (\<lambda>event. ev_t event > tradeTime) windowEvents);
          eventsAt = map snapshotOf (filter (\<lambda>event. ev_t event = tradeTime) windowEvents);
          bidStats = calcStats (List.map_filter ev_bestBid windowEvents);
          askStats = calcStats (List.map_filter ev_bestAsk windowEvents);
          spreadStats = calcStats (List.map_filter ev_spread windowEvents);
          midStats = calcStats (List.map_filter ev_mid windowEvents)
      in \<lparr> windowMs = W,
           eventCount = length windowEvents,
           beforeTrade =
             (if length eventsBefore > 0
              then Some (drop (length eventsBefore - SNAPSHOTS_BEFORE_TRADE) eventsBefore)
              else None),
           afterTrade =
             (if length eventsAfter > 0 then Some (take SNAPSHOTS_AFTER_TRADE eventsAfter)
              else None),
           atTrade = (if eventsAt = [] then None else Some (last eventsAt)),
           stats =
             \<lparr> bidMin = map_option fst bidStats,
               bidMax = map_option (fst \<circ> snd) bidStats,
               bidAvg = map_option (snd \<circ> snd) bidStats,
               askMin = map_option fst askStats,
               askMax = map_option (fst \<circ> snd) askStats,
               askAvg = map_option (snd \<circ> snd) askStats,
               spreadMin = map_option fst spreadStats,
               spreadMax = map_option (fst \<circ> snd) spreadStats,
               spreadAvg = map_option (snd \<circ> snd) spreadStats,
               midMin = map_option fst midStats,
               midMax = map_option (fst \<circ> snd) midStats,
               midAvg = map_option (snd \<circ> snd) midStats,
               priceChangeCount =
                 length (filter (\<lambda>event. ev_type event = ''price_change'') windowEvents),
               lastTradePriceCount =
                 length (filter (\<lambda>event. ev_type event = ''last_trade_price'') windowEvents) \<rparr>,
           rawDataRef =
             \<lparr> eventsFile = ''events.jsonl'',
               firstEventTime = ev_t (hd windowEvents),
               lastEventTime = ev_t (last windowEvents) \<rparr> \<rparr>)"

text \<open>
  One pass of the loop body. An empty \<^verbatim>\<open>windowEvents\<close> takes the \<^verbatim>\<open>continue\<close> and leaves the
  trade as it is; otherwise the summary is stored and the raw list is stored or deleted:
  \<^verbatim>\<open>
  if (windowEvents.length <= MAX_RAW_EVENTS_PER_TRADE) {
      trade.marketEvents = windowEvents.map(e => ({ ... }));
  } else {
      delete trade.marketEvents;
  }
  \<close>
  \<open>summaryOf\<close> reads the first and last element only of a list that is not empty.
\<close>

definition addMarketContext :: "int \<Rightarrow> EventRecord list \<Rightarrow> MergedTrade \<Rightarrow> MergedTrade" where
  "addMarketContext W marketLog trade =
     (let tradeTime = timestampMs trade;
          collected = windowEventsFor W marketLog tradeTime
      in if length collected = 0 then trade
         else
           (let windowEvents = sort_key ev_t collected
            in trade\<lparr> marketSummary := Some (summaryOf W tradeTime windowEvents),
                      marketEvents :=
                        (if length windowEvents \<le> MAX_RAW_EVENTS_PER_TRADE
                         then Some (map rawOf windowEvents) else None) \<rparr>))"

subsection \<open>The merger\<close>

definition mergeTradesW ::
  "int \<Rightarrow> EventRecord list \<Rightarrow> EventRecord list \<Rightarrow> MergedTrade list \<Rightarrow> MergedTrade list" where
  "mergeTradesW W restEvents marketLog existingMerged =
     (let merged0 = foldl loadExisting [] existingMerged;
          merged1 = foldl processRest merged0 restEvents;
          merged2 = map (\<lambda>(k, trade). (k, addMarketContext W marketLog trade)) merged1
      in sort_key timestampMs (map snd merged2))"

definition mergeTrades ::
  "EventRecord list \<Rightarrow> EventRecord list \<Rightarrow> MergedTrade list \<Rightarrow> MergedTrade list" where
  "mergeTrades = mergeTradesW MARKET_WINDOW_MS"

subsection \<open>The updates in place\<close>

text \<open>
  In the source the records are objects: the map of the merger holds the very objects of
  \<^verbatim>\<open>existingMerged\<close>, the REST loop assigns to their fields (\<^verbatim>\<open>existing.rest = ...\<close>), and the
  context loop assigns to the fields of every object of the map
  (\<^verbatim>\<open>trade.marketSummary = ...\<close>). So a call changes the records of its third argument. The
  model below keeps the objects in a list indexed by their address: the objects of
  \<^verbatim>\<open>existingMerged\<close> at the addresses \<open>0, \<dots>, n - 1\<close> (an array parsed from a file holds \<open>n\<close>
  objects, no two of them the same), the objects created by the REST loop after them. The
  map holds addresses. The result is the list returned and the array \<^verbatim>\<open>existingMerged\<close> as the
  call leaves it.
\<close>

definition loadExistingAt ::
  "MergedTrade list \<Rightarrow> (string \<times> nat) list \<Rightarrow> nat \<Rightarrow> (string \<times> nat) list" where
  "loadExistingAt objects merged a =
     (let trade = objects ! a in
        if tx trade \<noteq> [] then
          (let txLower = toLowerCase (tx trade) in
             case map_of merged txLower of
               None \<Rightarrow> setProp txLower a merged
             | Some b \<Rightarrow>
                 if timestampMs trade < timestampMs (objects ! b) then setProp txLower a merged
                 else merged)
        else merged)"

definition processRestAt ::
  "(string \<times> nat) list \<times> MergedTrade list \<Rightarrow> EventRecord
     \<Rightarrow> (string \<times> nat) list \<times> MergedTrade list" where
  "processRestAt state event =
     (let merged = fst state; objects = snd state in
        if ev_src event \<noteq> rest_poll \<or> \<not> truthyStr (ev_tx event) then state
        else
          (let txLower = toLowerCase (the (ev_tx event)) in
             case map_of merged txLower of
               Some a \<Rightarrow> (merged, objects[a := updateExisting (objects ! a) event])
             | None \<Rightarrow> (setProp txLower (length objects) merged, objects @ [createNew event])))"

definition addMarketContextAt ::
  "int \<Rightarrow> EventRecord list \<Rightarrow> MergedTrade list \<Rightarrow> nat \<Rightarrow> MergedTrade list" where
  "addMarketContextAt W marketLog objects a =
     objects[a := addMarketContext W marketLog (objects ! a)]"

definition mergeTradesInPlace ::
  "int \<Rightarrow> EventRecord list \<Rightarrow> EventRecord list \<Rightarrow> MergedTrade list
     \<Rightarrow> MergedTrade list \<times> MergedTrade list" where
  "mergeTradesInPlace W restEvents marketLog existingMerged =
     (let merged0 = foldl (loadExistingAt existingMerged) [] [0..<length existingMerged];
          state1 = foldl processRestAt (merged0, existingMerged) restEvents;
          merged1 = fst state1;
          objects2 = foldl (addMarketContextAt W marketLog) (snd state1) (map snd merged1)
      in (sort_key timestampMs (map (\<lambda>(k, a). objects2 ! a) merged1),
          take (length existingMerged) objects2))"

text \<open>
  \<open>mergeTradesW\<close> is shown below to return what \<open>mergeTradesInPlace\<close> returns. The array left
  behind is not read again: in \<^verbatim>\<open>watchAndMerge\<close> it is the local \<^verbatim>\<open>existing\<close>, parsed from the
  merged file in every round.
\<close>

subsection \<open>A round of the watcher\<close>

text \<open>
  One round of \<^verbatim>\<open>watchAndMerge\<close> for one market, which the watcher runs on its first pass
  over a log and whenever the log has grown. The log is split by source; without a polled
  trade nothing is merged and nothing is queued. Otherwise the merged file is
  parsed, merged with the log, and the result is queued in \<^verbatim>\<open>pendingMerges\<close> on the first
  round of the process, when the list grew, or when the log holds snapshots.
  \<^verbatim>\<open>
  const restEvents = allEvents.filter((e) => e.src === 'rest_poll' && e.tx);
  const marketEvents = allEvents.filter((e) => e.src === 'market_ws');
  if (restEvents.length > 0) {
      const existing = loadMergedTrades(mergedPath);
      const merged = mergeTrades(restEvents, marketEvents, existing);
      const existingPending = pendingMerges.get(slugId);
      const previousLength = existingPending?.merged.length ?? existing.length;
      const newMerged = merged.length - previousLength;
      if (isFirstRun || newMerged > 0 || marketEvents.length > 0) {
          pendingMerges.set(slugId, { merged, ... });
      }
  }
  \<close>
  The arguments are the flag \<^verbatim>\<open>isFirstRun\<close>, the log, the content of the merged file and the
  list queued for this market, if any; the result is the list queued after the round. Of an
  entry of \<^verbatim>\<open>pendingMerges\<close> only the field \<^verbatim>\<open>merged\<close> reaches the merged file.
\<close>

definition mergeRound ::
  "bool \<Rightarrow> EventRecord list \<Rightarrow> MergedTrade list \<Rightarrow> MergedTrade list option
     \<Rightarrow> MergedTrade list option" where
  "mergeRound isFirstRun allEvents existing existingPending =
     (let restEvents = filter (\<lambda>e. ev_src e = rest_poll \<and> truthyStr (ev_tx e)) allEvents;
          marketLog = filter (\<lambda>e. ev_src e = market_ws) allEvents
      in if length restEvents > 0 then
           (let merged = mergeTrades restEvents marketLog existing;
                previousLength =
                  (case existingPending of
                     Some pendingMerged \<Rightarrow> length pendingMerged
                   | None \<Rightarrow> length existing);
                newMerged = int (length merged) - int previousLength
            in if isFirstRun \<or> newMerged > 0 \<or> length marketLog > 0 then Some merged
               else existingPending)
         else existingPending)"

text \<open>
  \<^verbatim>\<open>saveMergedTrades\<close> writes \<^verbatim>\<open>JSON.stringify(trades, null, 2)\<close> and \<^verbatim>\<open>loadMergedTrades\<close> of a
  later round parses the file. What comes back is the list written, but for the \<^verbatim>\<open>rest\<close>
  object and the payload spread into it: a property whose value is \<^verbatim>\<open>undefined\<close> is left
  out, and an \<^verbatim>\<open>undefined\<close> entry of an array comes back as \<^verbatim>\<open>null\<close>. In the other fields an
  absent and an \<^verbatim>\<open>undefined\<close> value are both \<open>None\<close>. \<open>saveMergedTrades\<close> below is the content of
  the file written, as the list of records that \<^verbatim>\<open>loadMergedTrades\<close> reads from it.
\<close>

fun stringifyVal :: "jsval \<Rightarrow> jsval"
  and stringifyElems :: "jsval list \<Rightarrow> jsval list"
  and stringifyProps :: "(string \<times> jsval) list \<Rightarrow> (string \<times> jsval) list" where
  "stringifyVal (JArr xs) = JArr (stringifyElems xs)"
| "stringifyVal (JObj ps) = JObj (stringifyProps ps)"
| "stringifyVal JUndefined = JUndefined"
| "stringifyVal JNull = JNull"
| "stringifyVal (JBool b) = JBool b"
| "stringifyVal (JNum n) = JNum n"
| "stringifyVal (JStr s) = JStr s"
| "stringifyElems [] = []"
| "stringifyElems (x # xs) =
     (if x = JUndefined then JNull else stringifyVal x) # stringifyElems xs"
| "stringifyProps [] = []"
| "stringifyProps (p # ps) =
     (if snd p = JUndefined then stringifyProps ps
      else (fst p, stringifyVal (snd p)) # stringifyProps ps)"

definition storedTrade :: "MergedTrade \<Rightarrow> MergedTrade" where
  "storedTrade trade = trade\<lparr> rest := map_option stringifyProps (rest trade) \<rparr>"

definition saveMergedTrades :: "MergedTrade list \<Rightarrow> MergedTrade list" where
  "saveMergedTrades trades = map storedTrade trades"

text \<open>
  The merged file after the first round of a process that has just started: \<^verbatim>\<open>isFirstRun\<close>
  holds, nothing is queued yet, and \<^verbatim>\<open>flushPendingWrites(isFirstRun)\<close> at the end of the round
  writes what the round queued. A file for which nothing was queued is left as it is.
\<close>

definition mergeLog :: "EventRecord list \<Rightarrow> MergedTrade list \<Rightarrow> MergedTrade list" where
  "mergeLog allEvents existing =
     (case mergeRound True allEvents existing None of
        Some merged \<Rightarrow> saveMergedTrades merged
      | None \<Rightarrow> existing)"

subsection \<open>Notions used in the proofs\<close>

text \<open>
  The update of \<^verbatim>\<open>timestampMs\<close> taken alone, the key under which a record is filed, the
  events of the REST loop that are not skipped, their key, and the events of one key.
\<close>

definition tsStep :: "int \<Rightarrow> int \<Rightarrow> int" where
  "tsStep x t = min (if x \<noteq> 0 then x else t) t"

definition keyOf :: "MergedTrade \<Rightarrow> string" where
  "keyOf trade = toLowerCase (tx trade)"

definition validRest :: "EventRecord \<Rightarrow> bool" where
  "validRest event \<longleftrightarrow> ev_src event = rest_poll \<and> truthyStr (ev_tx event)"

definition evKey :: "EventRecord \<Rightarrow> string" where
  "evKey event = toLowerCase (the (ev_tx event))"

definition eventsFor :: "string \<Rightarrow> EventRecord list \<Rightarrow> EventRecord list" where
  "eventsFor k restEvents = filter (\<lambda>e. validRest e \<and> evKey e = k) restEvents"

text \<open>
  The REST loop on a map that holds every key already: every record takes the updates of
  the events of its key.
\<close>

definition applyRest :: "EventRecord list \<Rightarrow> string \<times> MergedTrade \<Rightarrow> string \<times> MergedTrade" where
  "applyRest restEvents p = (fst p, foldl updateExisting (snd p) (eventsFor (fst p) restEvents))"

text \<open>
  Three invariants. A fold of \<open>tsStep\<close> either ran over no time, or ended on a value other
  than \<open>0\<close> that is least among the times, or passed through \<open>0\<close> on times that are not
  negative. The map of the merger files every record under its own key, once, and no
  record has an empty hash. After the REST loop every key of an event is in the map and
  every record is the result of the updates of its key on some record.
\<close>

definition tsShape :: "int \<Rightarrow> int list \<Rightarrow> int \<Rightarrow> bool" where
  "tsShape x ts y \<longleftrightarrow>
     ts = []
     \<or> (y \<noteq> 0 \<and> (\<forall>t\<in>set ts. y \<le> t))
     \<or> (0 \<le> x \<and> (\<forall>t\<in>set ts. 0 \<le> t) \<and> (\<exists>ps qs. ts = ps @ 0 # qs \<and> foldl tsStep 0 qs = y))"

definition keyed :: "(string \<times> MergedTrade) list \<Rightarrow> bool" where
  "keyed m \<longleftrightarrow> distinct (map fst m) \<and> (\<forall>p\<in>set m. fst p = keyOf (snd p) \<and> tx (snd p) \<noteq> [])"

definition restInv :: "EventRecord list \<Rightarrow> (string \<times> MergedTrade) list \<Rightarrow> bool" where
  "restInv es m \<longleftrightarrow>
     keyed m
     \<and> (\<forall>e\<in>set es. validRest e \<longrightarrow> evKey e \<in> fst ` set m)
     \<and> (\<forall>p\<in>set m. \<exists>x0. snd p = foldl updateExisting x0 (eventsFor (fst p) es))"

text \<open>
  For the model with addresses: the map with every address replaced by the object stored
  there; a map whose keys are distinct, whose addresses are distinct and lie in the store;
  and a map that files every address under the key of its object.
\<close>

definition deref :: "MergedTrade list \<Rightarrow> (string \<times> nat) list \<Rightarrow> (string \<times> MergedTrade) list" where
  "deref objects m = map (\<lambda>(k, a). (k, objects ! a)) m"

definition addressed :: "MergedTrade list \<Rightarrow> (string \<times> nat) list \<Rightarrow> bool" where
  "addressed objects m \<longleftrightarrow>
     distinct (map fst m) \<and> distinct (map snd m) \<and> (\<forall>p\<in>set m. snd p < length objects)"

definition filed :: "MergedTrade list \<Rightarrow> (string \<times> nat) list \<Rightarrow> bool" where
  "filed h m \<longleftrightarrow>
     distinct (map fst m) \<and> (\<forall>p\<in>set m. snd p < length h \<and> fst p = toLowerCase (tx (h ! snd p)))"

subsection \<open>Example events\<close>

text \<open>
  A market-feed snapshot and a polled trade of the hash \<^verbatim>\<open>0xabc\<close> at a given time, without
  prices; and the output of a round on a log that holds the trade at 1000 and a snapshot
  at that time.
\<close>

definition example_snapshot :: "int \<Rightarrow> EventRecord" where
  "example_snapshot t =
     \<lparr> ev_t = t, ev_recv = t, ev_src = market_ws, ev_slug = Some ''btc-updown-15m'',
       ev_cid = None, ev_aid = None, ev_type = ''price_change'', ev_tx = None,
       ev_price = None, ev_size = None, ev_usdc = None, ev_side = None, ev_outcome = None,
       ev_asset = None, ev_bestBid = None, ev_bestAsk = None, ev_mid = None,
       ev_spread = None, ev_id = None, ev_endpoint = None, ev_data = None \<rparr>"

definition example_trade :: "int \<Rightarrow> EventRecord" where
  "example_trade t =
     \<lparr> ev_t = t, ev_recv = t, ev_src = rest_poll, ev_slug = Some ''btc-updown-15m'',
       ev_cid = None, ev_aid = None, ev_type = ''trade'', ev_tx = Some ''0xabc'',
       ev_price = None, ev_size = None, ev_usdc = None, ev_side = None, ev_outcome = None,
       ev_asset = None, ev_bestBid = None, ev_bestAsk = None, ev_mid = None,
       ev_spread = None, ev_id = None, ev_endpoint = None, ev_data = None \<rparr>"


section \<open>Properties of the reconnection backoff\<close>

lemma on_close_fst [simp]: "fst (on_close s) = reconnectDelay s" by (simp add: on_close_def)

lemma on_close_delay [simp]: "reconnectDelay (snd (on_close s)) = min (reconnectDelay s * 2) maxReconnectDelay" by (simp add: on_close_def)

lemma closes_Suc: "fst (closes (Suc n) s) = reconnectDelay s # fst (closes n (snd (on_close s)))"
  by (simp add: on_close_def split: prod.splits)

lemma closes_delays:
  "reconnectDelay s \<le> maxReconnectDelay \<Longrightarrow> fst (closes n s) = map (\<lambda>i. min (reconnectDelay s * 2 ^ i) maxReconnectDelay) [0..<n]"
proof (induction n arbitrary: s)
  case 0 show ?case by simp
next
  case (Suc n)
  let ?s' = "snd (on_close s)"
  have le: "reconnectDelay ?s' \<le> maxReconnectDelay" by simp
  have step: "min (min (reconnectDelay s * 2) maxReconnectDelay * 2 ^ i) maxReconnectDelay
      = min (reconnectDelay s * 2 ^ Suc i) maxReconnectDelay" for i
  proof (cases "reconnectDelay s * 2 \<le> maxReconnectDelay")
    case True then show ?thesis by (simp add: min_absorb1 mult.assoc)
  next
    case False
    then have a: "maxReconnectDelay \<le> reconnectDelay s * 2" by simp
    have p: "(1::nat) \<le> 2 ^ i" by simp
    have b: "maxReconnectDelay \<le> maxReconnectDelay * 2 ^ i" using p by simp
    have d: "reconnectDelay s * 2 \<le> reconnectDelay s * 2 ^ Suc i" by simp
    have c: "maxReconnectDelay \<le> reconnectDelay s * 2 ^ Suc i" by (rule order_trans[OF a d])
    have "min (reconnectDelay s * 2) maxReconnectDelay = maxReconnectDelay" using a by (rule min_absorb2)
    then show ?thesis using b c by (simp only: min_absorb2)
  qed
  have "fst (closes (Suc n) s) = reconnectDelay s # fst (closes n ?s')"
    by (rule closes_Suc)
  also have "fst (closes n ?s') = map (\<lambda>i. min (reconnectDelay ?s' * 2 ^ i) maxReconnectDelay) [0..<n]"
    using Suc.IH[OF le] .
  also have "\<dots> = map (\<lambda>i. min (reconnectDelay s * 2 ^ Suc i) maxReconnectDelay) [0..<n]"
    using step by simp
  also have "\<dots> = map (\<lambda>i. min (reconnectDelay s * 2 ^ i) maxReconnectDelay) (map Suc [0..<n])"
    by (simp add: comp_def)
  finally show ?case using Suc.prems
    unfolding map_Suc_upt upt_rec[of 0 "Suc n"] by (simp add: min_absorb1)
qed

lemma closes_numeral:
  "fst (closes (numeral k) s) = reconnectDelay s # fst (closes (pred_numeral k) (snd (on_close s)))"
  by (simp only: numeral_eq_Suc closes_Suc)

lemma closes_bounded:
  "reconnectDelay s \<le> maxReconnectDelay \<Longrightarrow> list_all (\<lambda>d. d \<le> maxReconnectDelay) (fst (closes n s))"
  by (simp add: closes_delays list_all_iff)

text \<open>
  Claim C8. From the initial delay of 1 s, the delays handed to \<^verbatim>\<open>setTimeout\<close> over
  consecutive closes are 1000, 2000, 4000, 8000, 16000, 30000, 30000, ... ms: the
  \<open>i\<close>-th one is \<open>min (1000 * 2 ^ i) 30000\<close>, each is the double of the one before capped at
  30000, none exceeds 30000, and an open connection puts the delay back to 1000, from
  where the sequence starts again.
\<close>

theorem reconnect_backoff_sequence:
  "fst (closes n initial_conn) = map (\<lambda>i. min (1000 * 2 ^ i) 30000) [0..<n]
   \<and> fst (closes 7 initial_conn) = [1000, 2000, 4000, 8000, 16000, 30000, 30000]
   \<and> fst (on_close (snd (on_close s))) = min (fst (on_close s) * 2) 30000
   \<and> list_all (\<lambda>d. d \<le> 30000) (fst (closes n initial_conn))
   \<and> reconnectDelay (on_open s) = 1000
   \<and> fst (closes n (on_open s)) = map (\<lambda>i. min (1000 * 2 ^ i) 30000) [0..<n]
   \<and> list_all (\<lambda>d. d \<le> 30000) (fst (closes n (on_open s)))"
proof -
  have i: "reconnectDelay initial_conn \<le> maxReconnectDelay"
    by (simp add: initial_conn_def baseReconnectDelay_def maxReconnectDelay_def)
  have o: "reconnectDelay (on_open s) \<le> maxReconnectDelay"
    by (simp add: on_open_def baseReconnectDelay_def maxReconnectDelay_def)
  have a: "fst (closes n initial_conn) = map (\<lambda>i. min (1000 * 2 ^ i) 30000) [0..<n]"
    using closes_delays [OF i, of n]
    by (simp add: initial_conn_def baseReconnectDelay_def maxReconnectDelay_def)
  have b: "fst (closes 7 initial_conn) = [1000, 2000, 4000, 8000, 16000, 30000, 30000]"
    by (simp add: closes_numeral closes_Suc on_close_def initial_conn_def baseReconnectDelay_def
        maxReconnectDelay_def)
  have c: "fst (on_close (snd (on_close s))) = min (fst (on_close s) * 2) 30000"
    by (simp add: maxReconnectDelay_def)
  have d: "list_all (\<lambda>d. d \<le> 30000) (fst (closes n initial_conn))"
    using closes_bounded [OF i, of n] by (simp add: maxReconnectDelay_def)
  have e: "reconnectDelay (on_open s) = 1000" by (simp add: on_open_def baseReconnectDelay_def)
  have f: "fst (closes n (on_open s)) = map (\<lambda>i. min (1000 * 2 ^ i) 30000) [0..<n]"
    using closes_delays [OF o, of n] by (simp add: e maxReconnectDelay_def)
  have g: "list_all (\<lambda>d. d \<le> 30000) (fst (closes n (on_open s)))"
    using closes_bounded [OF o, of n] by (simp add: maxReconnectDelay_def)
  show ?thesis using a b c d e f g by blast
qed

section \<open>Properties of the seen-set\<close>

lemma pruneSeen_order:
  "seenTxOrder (pruneSeen s) = drop (length (seenTxOrder s) - MAX_SEEN_TX) (seenTxOrder s)"
  by (simp add: pruneSeen_def Let_def)

lemma pruneSeen_set:
  "seenTxSet (pruneSeen s) =
     seenTxSet s - set (take (length (seenTxOrder s) - MAX_SEEN_TX) (seenTxOrder s))"
  by (simp add: pruneSeen_def Let_def)

lemma pruneSeen_length: "length (seenTxOrder (pruneSeen s)) \<le> MAX_SEEN_TX"
  by (simp add: pruneSeen_order)

lemma set_drop_distinct: "distinct xs \<Longrightarrow> set (drop n xs) = set xs - set (take n xs)"
proof -
  assume d: "distinct xs"
  have "distinct (take n xs @ drop n xs)" using d by simp
  then have "set (take n xs) \<inter> set (drop n xs) = {}" by (simp only: distinct_append)
  moreover have "set xs = set (take n xs) \<union> set (drop n xs)"
    by (metis append_take_drop_id set_append)
  ultimately show ?thesis by blast
qed

lemma pruneSeen_consistent: "seen_consistent s \<Longrightarrow> seen_consistent (pruneSeen s)"
  by (simp add: seen_consistent_def pruneSeen_order pruneSeen_set set_drop_distinct)

lemma checkAndInsert_consistent:
  "seen_consistent s \<Longrightarrow> seen_consistent (snd (checkAndInsert k s))"
proof (cases "k \<in> seenTxSet s")
  case True
  assume "seen_consistent s"
  with True show ?thesis by (simp add: checkAndInsert_def)
next
  case False
  assume c: "seen_consistent s"
  have "seen_consistent \<lparr> seenTxOrder = seenTxOrder s @ [k], seenTxSet = insert k (seenTxSet s) \<rparr>"
    using c False by (simp add: seen_consistent_def)
  then show ?thesis using False by (simp add: checkAndInsert_def pruneSeen_consistent)
qed

lemma checkAndInsert_resident:
  "k \<in> seenTxSet s \<Longrightarrow> checkAndInsert k s = (False, s)"
  by (simp add: checkAndInsert_def)

lemma checkAndInsert_new_order:
  "k \<notin> seenTxSet s \<Longrightarrow>
     seenTxOrder (snd (checkAndInsert k s)) =
       drop (Suc (length (seenTxOrder s)) - MAX_SEEN_TX) (seenTxOrder s @ [k])"
  by (simp add: checkAndInsert_def pruneSeen_order)

lemma MAX_SEEN_TX_pos: "0 < MAX_SEEN_TX" by (simp add: MAX_SEEN_TX_def)

lemma checkAndInsert_keeps_new:
  assumes c: "seen_consistent s" and new: "k \<notin> seenTxSet s"
  shows "k \<in> seenTxSet (snd (checkAndInsert k s))"
proof -
  let ?n = "Suc (length (seenTxOrder s)) - MAX_SEEN_TX"
  have le: "?n \<le> length (seenTxOrder s)" using MAX_SEEN_TX_pos by arith
  have "take ?n (seenTxOrder s @ [k]) = take ?n (seenTxOrder s)" using le by simp
  moreover have "k \<notin> set (seenTxOrder s)" using c new by (simp add: seen_consistent_def)
  ultimately have "k \<notin> set (take ?n (seenTxOrder s @ [k]))"
    by (metis in_set_takeD)
  then show ?thesis using new by (simp add: checkAndInsert_def pruneSeen_set)
qed

lemma checkAndInsert_length:
  "length (seenTxOrder s) \<le> MAX_SEEN_TX \<Longrightarrow>
     length (seenTxOrder (snd (checkAndInsert k s))) \<le> MAX_SEEN_TX"
  by (simp add: checkAndInsert_def pruneSeen_length)

lemma deliver_snd_Cons: "snd (deliver (k # ks) s) = snd (deliver ks (snd (checkAndInsert k s)))"
  by (simp split: prod.splits)

lemma deliver_fst_Cons:
  "fst (deliver (k # ks) s) =
     (if fst (checkAndInsert k s) then k # fst (deliver ks (snd (checkAndInsert k s)))
      else fst (deliver ks (snd (checkAndInsert k s))))"
  by (simp split: prod.splits)

declare deliver.simps(2) [simp del]

lemma deliver_consistent: "seen_consistent s \<Longrightarrow> seen_consistent (snd (deliver ks s))"
  by (induction ks arbitrary: s) (simp_all add: deliver_snd_Cons checkAndInsert_consistent)

lemma deliver_length:
  "length (seenTxOrder s) \<le> MAX_SEEN_TX \<Longrightarrow> length (seenTxOrder (snd (deliver ks s))) \<le> MAX_SEEN_TX"
  by (induction ks arbitrary: s) (simp_all add: deliver_snd_Cons checkAndInsert_length)

lemma drop_drop_cap:
  assumes "a \<le> length xs - M"
  shows "drop (length (drop a xs) - M) (drop a xs) = drop (length xs - M) xs"
proof -
  have "length (drop a xs) - M + a = length xs - M" using assms by simp
  then show ?thesis by (simp only: drop_drop)
qed

lemma deliver_distinct_order:
  assumes "seen_consistent s" and "distinct ks" and "set ks \<inter> seenTxSet s = {}"
    and "length (seenTxOrder s) \<le> MAX_SEEN_TX"
  shows "seenTxOrder (snd (deliver ks s)) =
           drop (length (seenTxOrder s @ ks) - MAX_SEEN_TX) (seenTxOrder s @ ks)
         \<and> fst (deliver ks s) = ks"
  using assms
proof (induction ks arbitrary: s)
  case Nil
  then show ?case by simp
next
  case (Cons k ks)
  let ?s1 = "snd (checkAndInsert k s)"
  let ?a = "Suc (length (seenTxOrder s)) - MAX_SEEN_TX"
  have new: "k \<notin> seenTxSet s" using Cons.prems by simp
  have o1: "seenTxOrder ?s1 = drop ?a (seenTxOrder s @ [k])" using new by (rule checkAndInsert_new_order)
  have c1: "seen_consistent ?s1" using Cons.prems(1) by (rule checkAndInsert_consistent)
  have d1: "distinct ks" using Cons.prems(2) by simp
  have "set (seenTxOrder ?s1) \<subseteq> set (seenTxOrder s @ [k])" unfolding o1 by (rule set_drop_subset)
  then have "seenTxSet ?s1 \<subseteq> insert k (seenTxSet s)"
    using c1 Cons.prems(1) by (auto simp: seen_consistent_def)
  then have i1: "set ks \<inter> seenTxSet ?s1 = {}" using Cons.prems(2,3) by auto
  have l1: "length (seenTxOrder ?s1) \<le> MAX_SEEN_TX" using Cons.prems(4) by (rule checkAndInsert_length)
  note IH = Cons.IH[OF c1 d1 i1 l1]
  have acc: "fst (checkAndInsert k s)" using new by (simp add: checkAndInsert_def)
  have "seenTxOrder (snd (deliver (k # ks) s)) =
          drop (length (seenTxOrder ?s1 @ ks) - MAX_SEEN_TX) (seenTxOrder ?s1 @ ks)"
    using IH by (simp add: deliver_snd_Cons)
  also have "seenTxOrder ?s1 @ ks = drop ?a (seenTxOrder s @ k # ks)"
  proof -
    have e: "?a - length (seenTxOrder s @ [k]) = 0" by simp
    have "drop ?a ((seenTxOrder s @ [k]) @ ks) =
            drop ?a (seenTxOrder s @ [k]) @ drop (?a - length (seenTxOrder s @ [k])) ks"
      by (rule drop_append)
    then have "drop ?a ((seenTxOrder s @ [k]) @ ks) = drop ?a (seenTxOrder s @ [k]) @ ks"
      by (simp only: e drop_0)
    then show ?thesis unfolding o1 by simp
  qed
  also have "drop (length (drop ?a (seenTxOrder s @ k # ks)) - MAX_SEEN_TX) (drop ?a (seenTxOrder s @ k # ks))
       = drop (length (seenTxOrder s @ k # ks) - MAX_SEEN_TX) (seenTxOrder s @ k # ks)"
    by (rule drop_drop_cap) simp
  finally show ?case using IH acc by (simp add: deliver_fst_Cons)
qed

lemma empty_seen_consistent: "seen_consistent empty_seen"
  by (simp add: seen_consistent_def empty_seen_def)

text \<open>
  Claim C3. In a consistent seen-set, a key that is resident is rejected and the state is
  left alone; a key that is not resident is accepted and is resident afterwards; so the
  second of two deliveries of one key is rejected, and of two deliveries of a fresh key
  exactly one goes through.
\<close>

theorem dedup_idempotent:
  assumes "seen_consistent s"
  shows "(k \<in> seenTxSet s \<longrightarrow> checkAndInsert k s = (False, s))
       \<and> (k \<notin> seenTxSet s \<longrightarrow>
            fst (checkAndInsert k s) \<and> k \<in> seenTxSet (snd (checkAndInsert k s)))
       \<and> \<not> fst (checkAndInsert k (snd (checkAndInsert k s)))
       \<and> (k \<notin> seenTxSet s \<longrightarrow> fst (deliver [k, k] s) = [k])"
proof -
  have res: "k \<in> seenTxSet (snd (checkAndInsert k s))"
  proof (cases "k \<in> seenTxSet s")
    case True then show ?thesis by (simp add: checkAndInsert_resident)
  next
    case False with assms show ?thesis by (rule checkAndInsert_keeps_new)
  qed
  have second: "\<not> fst (checkAndInsert k (snd (checkAndInsert k s)))"
    using res by (simp add: checkAndInsert_resident)
  have first: "k \<notin> seenTxSet s \<Longrightarrow> fst (checkAndInsert k s)"
    by (simp add: checkAndInsert_def)
  have twice: "k \<notin> seenTxSet s \<Longrightarrow> fst (deliver [k, k] s) = [k]"
    using second first by (simp add: deliver_fst_Cons)
  show ?thesis using res second first twice by (simp add: checkAndInsert_resident)
qed

text \<open>The empty store and the key \<^verbatim>\<open>id:0xabc\<close> delivered twice.\<close>

theorem dedup_idempotent_witness:
  "seen_consistent (empty_seen :: string seen_state)
   \<and> ''id:0xabc'' \<notin> seenTxSet (empty_seen :: string seen_state)
   \<and> fst (deliver [''id:0xabc'', ''id:0xabc''] empty_seen) = [''id:0xabc'']
   \<and> \<not> fst (checkAndInsert ''id:0xabc'' (snd (checkAndInsert ''id:0xabc'' empty_seen)))"
  using dedup_idempotent [OF empty_seen_consistent, of "''id:0xabc''"]
  by (simp add: empty_seen_consistent) (simp add: empty_seen_def)

lemma recordSeen_fold:
  assumes "distinct ks" and "set ks \<inter> seenTxSet s = {}"
  shows "foldl recordSeen s ks =
           \<lparr> seenTxOrder = seenTxOrder s @ ks, seenTxSet = seenTxSet s \<union> set ks \<rparr>"
  using assms
proof (induction ks arbitrary: s)
  case Nil show ?case by simp
next
  case (Cons k ks)
  let ?s1 = "\<lparr> seenTxOrder = seenTxOrder s @ [k], seenTxSet = insert k (seenTxSet s) \<rparr>"
  have r: "recordSeen s k = ?s1" using Cons.prems(2) by (simp add: recordSeen_def)
  have "set ks \<inter> seenTxSet ?s1 = {}" using Cons.prems by auto
  then have "foldl recordSeen ?s1 ks =
      \<lparr> seenTxOrder = seenTxOrder ?s1 @ ks, seenTxSet = seenTxSet ?s1 \<union> set ks \<rparr>"
    using Cons.prems(1) by (intro Cons.IH) simp
  then show ?case using r by simp
qed

lemma recordBatch_empty:
  "distinct ks \<Longrightarrow> seenTxOrder (recordBatch ks empty_seen) = drop (length ks - MAX_SEEN_TX) ks"
  by (simp add: recordBatch_def recordSeen_fold empty_seen_def pruneSeen_order)

lemma recordBatch_length: "length (seenTxOrder (recordBatch ks s)) \<le> MAX_SEEN_TX"
  by (simp add: recordBatch_def pruneSeen_length)

text \<open>
  Claim C4. Distinct keys delivered one after another to the empty store: after every
  prefix the store holds at most \<open>MAX_SEEN_TX = 10000\<close> keys; every key is accepted; in the
  end the store holds the newest 10000 in their order of arrival, so what was evicted is
  the oldest \<open>length ks - 10000\<close>; with 15000 keys these are the first 5000.
\<close>

theorem dedup_bound_fifo:
  assumes "distinct ks"
  shows "length (seenTxOrder (snd (deliver (take n ks) empty_seen))) \<le> MAX_SEEN_TX
       \<and> card (seenTxSet (snd (deliver (take n ks) empty_seen))) \<le> MAX_SEEN_TX
       \<and> fst (deliver ks empty_seen) = ks
       \<and> seenTxOrder (snd (deliver ks empty_seen)) = drop (length ks - MAX_SEEN_TX) ks
       \<and> seenTxSet (snd (deliver ks empty_seen)) = set ks - set (take (length ks - MAX_SEEN_TX) ks)
       \<and> (length ks = 15000 \<longrightarrow>
            seenTxOrder (snd (deliver ks empty_seen)) = drop 5000 ks
          \<and> seenTxSet (snd (deliver ks empty_seen)) = set ks - set (take 5000 ks))
       \<and> length (seenTxOrder (recordBatch (take n ks) empty_seen)) \<le> MAX_SEEN_TX
       \<and> seenTxOrder (recordBatch ks empty_seen) = drop (length ks - MAX_SEEN_TX) ks"
proof -
  let ?s = "snd (deliver ks empty_seen)"
  let ?p = "snd (deliver (take n ks) empty_seen)"
  have e: "length (seenTxOrder (empty_seen :: 'a seen_state)) \<le> MAX_SEEN_TX"
    by (simp add: empty_seen_def)
  have len: "length (seenTxOrder ?p) \<le> MAX_SEEN_TX" using e by (rule deliver_length)
  have cp: "seen_consistent ?p" using empty_seen_consistent by (rule deliver_consistent)
  then have "card (seenTxSet ?p) = length (seenTxOrder ?p)"
    by (simp add: seen_consistent_def distinct_card)
  with len have crd: "card (seenTxSet ?p) \<le> MAX_SEEN_TX" by simp
  have i: "set ks \<inter> seenTxSet (empty_seen :: 'a seen_state) = {}" by (simp add: empty_seen_def)
  have ord: "seenTxOrder ?s = drop (length ks - MAX_SEEN_TX) ks" and out: "fst (deliver ks empty_seen) = ks"
    using deliver_distinct_order [OF empty_seen_consistent assms i e] by (simp_all add: empty_seen_def)
  have cs: "seen_consistent ?s" using empty_seen_consistent by (rule deliver_consistent)
  then have "seenTxSet ?s = set (drop (length ks - MAX_SEEN_TX) ks)"
    using ord by (simp add: seen_consistent_def)
  then have st: "seenTxSet ?s = set ks - set (take (length ks - MAX_SEEN_TX) ks)"
    using assms by (simp add: set_drop_distinct)
  have fifteen: "length ks = 15000 \<Longrightarrow> length ks - MAX_SEEN_TX = 5000"
    by (simp add: MAX_SEEN_TX_def)
  have bl: "length (seenTxOrder (recordBatch (take n ks) empty_seen)) \<le> MAX_SEEN_TX"
    by (rule recordBatch_length)
  have bo: "seenTxOrder (recordBatch ks empty_seen) = drop (length ks - MAX_SEEN_TX) ks"
    using assms by (rule recordBatch_empty)
  show ?thesis using len crd out ord st fifteen bl bo by simp
qed

text \<open>The keys \<open>0, \<dots>, 14999\<close>: the store ends with \<open>5000, \<dots>, 14999\<close>.\<close>

theorem dedup_bound_fifo_witness:
  "distinct [0..<15000::nat]
   \<and> fst (deliver [0..<15000::nat] empty_seen) = [0..<15000]
   \<and> seenTxOrder (snd (deliver [0..<15000::nat] empty_seen)) = [5000..<15000]
   \<and> seenTxSet (snd (deliver [0..<15000::nat] empty_seen)) = {5000..<15000}
   \<and> length (seenTxOrder (snd (deliver (take 12000 [0..<15000::nat]) empty_seen))) \<le> 10000"
proof -
  have d: "distinct [0..<15000::nat]" by (rule distinct_upt)
  have l: "length [0..<15000::nat] = 15000" by (simp only: length_upt diff_zero)
  have t: "take 5000 [0..<15000::nat] = [0..<5000]" by (simp only: take_upt add_0)
  have dr: "drop 5000 [0..<15000::nat] = [5000..<15000]" by (simp only: drop_upt add_0)
  have s: "set [0..<15000::nat] - set [0..<5000] = {5000..<15000}"
    unfolding set_upt by auto
  note th = dedup_bound_fifo [OF d, of 12000]
  from th l have a1: "fst (deliver [0..<15000::nat] empty_seen) = [0..<15000]" by blast
  from th l have a2: "seenTxOrder (snd (deliver [0..<15000::nat] empty_seen)) = drop 5000 [0..<15000]"
    by blast
  from th l have a3: "seenTxSet (snd (deliver [0..<15000::nat] empty_seen)) =
      set [0..<15000] - set (take 5000 [0..<15000])"
    by blast
  from th have a4: "length (seenTxOrder (snd (deliver (take 12000 [0..<15000::nat]) empty_seen)))
      \<le> MAX_SEEN_TX"
    by blast
  show ?thesis
    using d a1 a2 [unfolded dr] a3 [unfolded t s] a4 [unfolded MAX_SEEN_TX_def] by blast
qed

lemma full_store_consistent:
  "seen_consistent \<lparr> seenTxOrder = [0..<10000::nat], seenTxSet = {0..<10000} \<rparr>"
  unfolding seen_consistent_def by (simp del: upt_rec_numeral)

lemma full_store_insert:
  "seenTxOrder (snd (checkAndInsert (10000::nat)
      \<lparr> seenTxOrder = [0..<10000], seenTxSet = {0..<10000} \<rparr>)) = [1..<10000] @ [10000]"
proof -
  have "(10000::nat) \<notin> seenTxSet \<lparr> seenTxOrder = [0..<10000::nat], seenTxSet = {0..<10000} \<rparr>"
    by simp
  then have "seenTxOrder (snd (checkAndInsert (10000::nat)
      \<lparr> seenTxOrder = [0..<10000], seenTxSet = {0..<10000} \<rparr>))
      = drop (Suc (length [0..<10000::nat]) - MAX_SEEN_TX) ([0..<10000] @ [10000])"
    using checkAndInsert_new_order
      [of "10000::nat" "\<lparr> seenTxOrder = [0..<10000], seenTxSet = {0..<10000} \<rparr>"]
    by (simp del: upt_rec_numeral)
  also have "Suc (length [0..<10000::nat]) - MAX_SEEN_TX = 1" by (simp add: MAX_SEEN_TX_def)
  also have "drop 1 ([0..<10000::nat] @ [10000]) = [1..<10000] @ [10000]"
    by (simp del: upt_rec_numeral)
  finally show ?thesis .
qed

text \<open>
  Claim C5 says that an insertion beyond the capacity evicts the oldest half of the
  insertion order. The store \<^verbatim>\<open>seenTxOrder\<close>/\<^verbatim>\<open>seenTxSet\<close> of storeUserTradesRealtime.ts, full
  with the keys \<open>0, \<dots>, 9999\<close>, that takes the key \<open>10000\<close> is left with \<open>1, \<dots>, 10000\<close>:
  one key went, not the 5000 of the oldest half.
\<close>

theorem evict_half_counterexample:
  "seenTxOrder (snd (checkAndInsert (10000::nat)
      \<lparr> seenTxOrder = [0..<10000], seenTxSet = {0..<10000} \<rparr>)) = [1..<10000] @ [10000]
   \<and> seenTxOrder (snd (checkAndInsert (10000::nat)
      \<lparr> seenTxOrder = [0..<10000], seenTxSet = {0..<10000} \<rparr>))
       \<noteq> drop (length ([0..<10000::nat] @ [10000]) div 2) ([0..<10000] @ [10000])"
proof -
  have la: "length ([1..<10000::nat] @ [10000]) = 10000" by (simp del: upt_rec_numeral)
  have lb: "length (drop (length ([0..<10000::nat] @ [10000]) div 2) ([0..<10000::nat] @ [10000])) = 5001"
    by (simp del: upt_rec_numeral)
  have ne: "[1..<10000::nat] @ [10000]
      \<noteq> drop (length ([0..<10000::nat] @ [10000]) div 2) ([0..<10000] @ [10000])"
  proof
    assume "[1..<10000::nat] @ [10000]
      = drop (length ([0..<10000::nat] @ [10000]) div 2) ([0..<10000] @ [10000])"
    then have "length ([1..<10000::nat] @ [10000])
      = length (drop (length ([0..<10000::nat] @ [10000]) div 2) ([0..<10000::nat] @ [10000]))"
      by (rule arg_cong)
    then have "(10000::nat) = 5001" by (simp only: la lb)
    then show False by simp
  qed
  show ?thesis unfolding full_store_insert using ne by (rule conjI [OF refl])
qed

lemma recordBatch_order:
  assumes "distinct ks" and "set ks \<inter> seenTxSet s = {}"
  shows "seenTxOrder (recordBatch ks s) =
           drop (length (seenTxOrder s @ ks) - MAX_SEEN_TX) (seenTxOrder s @ ks)"
  using assms by (simp add: recordBatch_def recordSeen_fold pruneSeen_order)

lemma recordBatch_consistent:
  assumes "seen_consistent s" and "distinct ks" and "set ks \<inter> seenTxSet s = {}"
  shows "seen_consistent (recordBatch ks s)"
proof -
  have "seen_consistent \<lparr> seenTxOrder = seenTxOrder s @ ks, seenTxSet = seenTxSet s \<union> set ks \<rparr>"
    using assms by (auto simp: seen_consistent_def)
  then show ?thesis using assms(2,3) by (simp add: recordBatch_def recordSeen_fold pruneSeen_consistent)
qed

lemma addSeenTrade_new:
  assumes "k \<notin> set t"
  shows "snd (addSeenTrade k t) =
           (if length t < 10000 then t @ [k] else drop (length t - 4999) (t @ [k]))"
proof -
  have "10000 \<le> length t \<Longrightarrow> Suc (length t) - 5000 = length t - 4999" by simp
  then show ?thesis using assms by (auto simp: addSeenTrade_def cleanupSeenTrades_def Let_def)
qed

text \<open>
  Claim C5, as the code has it. The store \<^verbatim>\<open>seenTxOrder\<close>/\<^verbatim>\<open>seenTxSet\<close> evicts exactly the
  overflow. An accepted insertion into a consistent store within its capacity evicts
  nothing below the capacity and the single oldest key at the capacity; a batch of fresh
  keys is recorded whole and then cut from the front down to the newest 10000. The bulk
  eviction is what the set \<^verbatim>\<open>seenTrades\<close> of the user-feed monitor does: the insertion of a
  fresh key into a set of 10000 keys or more leaves the newest 5000 keys, and into a set of
  fewer than 10000 keys it evicts nothing.
\<close>

theorem eviction_per_store:
  assumes "seen_consistent s" and "length (seenTxOrder s) \<le> MAX_SEEN_TX" and "k \<notin> seenTxSet s"
    and "distinct ks" and "set ks \<inter> seenTxSet s = {}"
    and "k \<notin> set t"
  shows "seenTxOrder (snd (checkAndInsert k s)) =
           (if length (seenTxOrder s) < MAX_SEEN_TX then seenTxOrder s @ [k]
            else tl (seenTxOrder s) @ [k])
       \<and> seenTxSet (snd (checkAndInsert k s)) =
           (if length (seenTxOrder s) < MAX_SEEN_TX then insert k (seenTxSet s)
            else insert k (seenTxSet s - {hd (seenTxOrder s)}))
       \<and> seenTxOrder (recordBatch ks s) =
           drop (length (seenTxOrder s @ ks) - MAX_SEEN_TX) (seenTxOrder s @ ks)
       \<and> seenTxSet (recordBatch ks s) = set (seenTxOrder (recordBatch ks s))
       \<and> addSeenTrade k t =
           (True, if length t < 10000 then t @ [k] else drop (length t - 4999) (t @ [k]))
       \<and> (10000 \<le> length t \<longrightarrow> length (snd (addSeenTrade k t)) = 5000)"
proof -
  let ?s' = "snd (checkAndInsert k s)"
  have o: "seenTxOrder ?s' = drop (Suc (length (seenTxOrder s)) - MAX_SEEN_TX) (seenTxOrder s @ [k])"
    using assms(3) by (rule checkAndInsert_new_order)
  have c: "seen_consistent ?s'" using assms(1) by (rule checkAndInsert_consistent)
  have per_event: "seenTxOrder ?s' =
           (if length (seenTxOrder s) < MAX_SEEN_TX then seenTxOrder s @ [k]
            else tl (seenTxOrder s) @ [k])
       \<and> seenTxSet ?s' =
           (if length (seenTxOrder s) < MAX_SEEN_TX then insert k (seenTxSet s)
            else insert k (seenTxSet s - {hd (seenTxOrder s)}))"
  proof (cases "length (seenTxOrder s) < MAX_SEEN_TX")
    case True
    then have "seenTxOrder ?s' = seenTxOrder s @ [k]" using o by simp
    moreover from this c have "seenTxSet ?s' = insert k (seenTxSet s)"
      using assms(1) by (simp add: seen_consistent_def)
    ultimately show ?thesis using True by simp
  next
    case False
    then have full: "length (seenTxOrder s) = MAX_SEEN_TX" using assms(2) by simp
    then have ne: "seenTxOrder s \<noteq> []" using MAX_SEEN_TX_pos by auto
    then obtain x xs where xs: "seenTxOrder s = x # xs" by (cases "seenTxOrder s") auto
    have o': "seenTxOrder ?s' = tl (seenTxOrder s) @ [k]" using o full xs by simp
    have "x \<notin> set xs" and "x \<noteq> k" using assms(1,3) xs by (auto simp: seen_consistent_def)
    then have "set (xs @ [k]) = insert k (set (x # xs) - {x})" by auto
    then have "seenTxSet ?s' = insert k (seenTxSet s - {hd (seenTxOrder s)})"
      using c o' assms(1) xs by (simp add: seen_consistent_def)
    then show ?thesis using False o' by simp
  qed
  have batch: "seenTxOrder (recordBatch ks s) =
           drop (length (seenTxOrder s @ ks) - MAX_SEEN_TX) (seenTxOrder s @ ks)"
    using assms(4,5) by (rule recordBatch_order)
  have "seen_consistent (recordBatch ks s)" using assms(1,4,5) by (rule recordBatch_consistent)
  then have bset: "seenTxSet (recordBatch ks s) = set (seenTxOrder (recordBatch ks s))"
    by (simp add: seen_consistent_def)
  have acc: "fst (addSeenTrade k t)" using assms(6) by (simp add: addSeenTrade_def)
  have half: "snd (addSeenTrade k t) =
      (if length t < 10000 then t @ [k] else drop (length t - 4999) (t @ [k]))"
    using assms(6) by (rule addSeenTrade_new)
  have pair: "addSeenTrade k t =
      (True, if length t < 10000 then t @ [k] else drop (length t - 4999) (t @ [k]))"
    using acc half by (simp add: prod_eq_iff)
  have len: "10000 \<le> length t \<longrightarrow> length (snd (addSeenTrade k t)) = 5000"
    using half by simp
  show ?thesis using per_event batch bset pair len by blast
qed

text \<open>
  The full store with the keys \<open>0, \<dots>, 9999\<close>: the key 10000 pushes out the key 0 alone, the
  batch 10000, 10001, 10002 pushes out 0, 1, 2; a set \<^verbatim>\<open>seenTrades\<close> with the same keys that
  takes the key 10000 is left with \<open>5001, \<dots>, 10000\<close>.
\<close>

theorem eviction_per_store_witness:
  "seen_consistent \<lparr> seenTxOrder = [0..<10000::nat], seenTxSet = {0..<10000} \<rparr>
   \<and> length (seenTxOrder \<lparr> seenTxOrder = [0..<10000::nat], seenTxSet = {0..<10000} \<rparr>) \<le> MAX_SEEN_TX
   \<and> (10000::nat) \<notin> seenTxSet \<lparr> seenTxOrder = [0..<10000::nat], seenTxSet = {0..<10000} \<rparr>
   \<and> distinct [10000..<10003::nat]
   \<and> set [10000..<10003::nat] \<inter> seenTxSet \<lparr> seenTxOrder = [0..<10000::nat], seenTxSet = {0..<10000} \<rparr> = {}
   \<and> (10000::nat) \<notin> set [0..<10000]
   \<and> seenTxOrder (snd (checkAndInsert (10000::nat)
        \<lparr> seenTxOrder = [0..<10000], seenTxSet = {0..<10000} \<rparr>)) = [1..<10000] @ [10000]
   \<and> seenTxOrder (recordBatch [10000..<10003::nat]
        \<lparr> seenTxOrder = [0..<10000], seenTxSet = {0..<10000} \<rparr>) = [3..<10003]
   \<and> addSeenTrade (10000::nat) [0..<10000] = (True, [5001..<10000] @ [10000])"
proof -
  let ?s = "\<lparr> seenTxOrder = [0..<10000::nat], seenTxSet = {0..<10000} \<rparr>"
  have l: "length (seenTxOrder ?s) \<le> MAX_SEEN_TX" by (simp add: MAX_SEEN_TX_def)
  have n: "(10000::nat) \<notin> seenTxSet ?s" by simp
  have dk: "distinct [10000..<10003::nat]" by (rule distinct_upt)
  have dj: "set [10000..<10003::nat] \<inter> seenTxSet ?s = {}" unfolding set_upt by auto
  have nt: "(10000::nat) \<notin> set [0..<10000]" unfolding set_upt by simp
  have nl: "\<not> length (seenTxOrder ?s) < MAX_SEEN_TX" by (simp add: MAX_SEEN_TX_def)
  have nl2: "\<not> length [0..<10000::nat] < 10000" by (simp only: length_upt diff_zero less_irrefl not_False_eq_True)
  note th = eviction_per_store [OF full_store_consistent l n dk dj nt]
  from th nl have "seenTxOrder (snd (checkAndInsert (10000::nat) ?s)) = tl (seenTxOrder ?s) @ [10000]"
    by (simp only: if_False)
  moreover have "tl (seenTxOrder ?s) = [1..<10000]"
    by (simp del: upt_rec_numeral add: tl_upt)
  ultimately have a: "seenTxOrder (snd (checkAndInsert (10000::nat) ?s)) = [1..<10000] @ [10000]"
    by (simp only:)
  have app: "[0..<10000::nat] @ [10000..<10003] = [0..<10003]"
    using upt_add_eq_append [of 0 10000 3] by (simp del: upt_rec_numeral)
  from th have "seenTxOrder (recordBatch [10000..<10003::nat] ?s) =
      drop (length (seenTxOrder ?s @ [10000..<10003]) - MAX_SEEN_TX) (seenTxOrder ?s @ [10000..<10003])"
    by blast
  also have "seenTxOrder ?s @ [10000..<10003::nat] = [0..<10003]" using app by simp
  also have "length [0..<10003::nat] - MAX_SEEN_TX = 3" by (simp add: MAX_SEEN_TX_def)
  also have "drop 3 [0..<10003::nat] = [3..<10003]" by (simp only: drop_upt add_0)
  finally have b: "seenTxOrder (recordBatch [10000..<10003::nat] ?s) = [3..<10003]" .
  from th nl2 have "addSeenTrade (10000::nat) [0..<10000] =
      (True, drop (length [0..<10000::nat] - 4999) ([0..<10000] @ [10000]))"
    by (simp only: if_False)
  moreover have "drop (length [0..<10000::nat] - 4999) ([0..<10000::nat] @ [10000])
      = [5001..<10000] @ [10000]"
    by (simp del: upt_rec_numeral)
  ultimately have c: "addSeenTrade (10000::nat) [0..<10000] = (True, [5001..<10000] @ [10000])"
    by (simp only:)
  show ?thesis using full_store_consistent l n dk dj nt a b c by blast
qed

section \<open>Properties of the file-name components\<close>

lemma safe_a: "isSafeChar (CHR ''a'')" by (simp add: isSafeChar_def)

lemma safe_b: "isSafeChar (CHR ''b'')" by (simp add: isSafeChar_def)

lemma safe_us: "isSafeChar (CHR ''_'')" by (simp add: isSafeChar_def)

lemma nws_a: "\<not> isWhiteSpace (CHR ''a'')" by (simp add: isWhiteSpace_def)

lemma nws_b: "\<not> isWhiteSpace (CHR ''b'')" by (simp add: isWhiteSpace_def)

lemma replaceUnsafe_all_safe: "\<forall>c\<in>set s. isSafeChar c \<Longrightarrow> replaceUnsafe s = s"
  by (induction s) simp_all

lemma replaceUnsafe_safe: "c \<in> set (replaceUnsafe s) \<Longrightarrow> isSafeChar c"
proof (induction s rule: replaceUnsafe.induct)
  case 1 then show ?case by simp
next
  case (2 d ds)
  then show ?case by (auto simp: isSafeChar_def split: if_splits)
qed

lemma dropWhile_self: "xs \<noteq> [] \<Longrightarrow> \<not> P (hd xs) \<Longrightarrow> dropWhile P xs = xs"
  by (cases xs) simp_all

lemma trim_self: "s \<noteq> [] \<Longrightarrow> \<not> isWhiteSpace (hd s) \<Longrightarrow> \<not> isWhiteSpace (last s) \<Longrightarrow> trim s = s"
  by (simp add: trim_def dropWhile_self hd_rev)

lemma stripLeading_self: "s \<noteq> [] \<Longrightarrow> hd s \<noteq> CHR ''_'' \<Longrightarrow> stripLeadingUnderscores s = s"
  by (simp add: stripLeadingUnderscores_def dropWhile_self)

lemma stripTrailing_self: "s \<noteq> [] \<Longrightarrow> last s \<noteq> CHR ''_'' \<Longrightarrow> stripTrailingUnderscores s = s"
  by (simp add: stripTrailingUnderscores_def dropWhile_self hd_rev)

lemma stripTrailing_set: "set (stripTrailingUnderscores s) \<subseteq> set s"
  by (auto simp: stripTrailingUnderscores_def dest: set_dropWhileD)

lemma stripLeading_set: "set (stripLeadingUnderscores s) \<subseteq> set s"
  by (auto simp: stripLeadingUnderscores_def dest: set_dropWhileD)

lemma stripTrailing_prefix: "\<exists>zs. s = stripTrailingUnderscores s @ zs"
proof -
  let ?P = "\<lambda>c. c = CHR ''_''"
  have "rev (takeWhile ?P (rev s) @ dropWhile ?P (rev s)) = s"
    by (simp only: takeWhile_dropWhile_id rev_rev_ident)
  then have "rev (dropWhile ?P (rev s)) @ rev (takeWhile ?P (rev s)) = s"
    by (simp only: rev_append)
  then have "s = stripTrailingUnderscores s @ rev (takeWhile ?P (rev s))"
    by (simp only: stripTrailingUnderscores_def)
  then show ?thesis ..
qed

lemma stripTrailing_hd:
  "stripTrailingUnderscores s \<noteq> [] \<Longrightarrow> hd (stripTrailingUnderscores s) = hd s"
  using stripTrailing_prefix [of s] by (metis hd_append2)

lemma stripLeading_hd:
  "stripLeadingUnderscores s \<noteq> [] \<Longrightarrow> hd (stripLeadingUnderscores s) \<noteq> CHR ''_''"
  unfolding stripLeadingUnderscores_def by (rule hd_dropWhile)

lemma unknown_safe: "\<forall>c\<in>set ''unknown''. isSafeChar c"
  by (simp add: isSafeChar_def)

lemma sanitize_properties:
  "sanitizeFileComponent input \<noteq> []
   \<and> length (sanitizeFileComponent input) \<le> 140
   \<and> (\<forall>c\<in>set (sanitizeFileComponent input). isSafeChar c)
   \<and> hd (sanitizeFileComponent input) \<noteq> CHR ''_''"
proof -
  define r where "r = replaceUnsafe (trim input)"
  define cleaned where "cleaned = stripTrailingUnderscores (stripLeadingUnderscores r)"
  define safe where "safe = (if length cleaned > 0 then cleaned else ''unknown'')"
  have res: "sanitizeFileComponent input = take 140 safe"
    by (simp add: sanitizeFileComponent_def Let_def safe_def cleaned_def r_def)
  have ne: "safe \<noteq> []" by (simp add: safe_def)
  have "set cleaned \<subseteq> set r"
    unfolding cleaned_def using stripTrailing_set stripLeading_set by (meson order_trans)
  then have cs: "\<forall>c\<in>set cleaned. isSafeChar c" using replaceUnsafe_safe by (auto simp: r_def)
  have ss: "\<forall>c\<in>set safe. isSafeChar c" using cs unknown_safe by (simp add: safe_def)
  have hc: "cleaned \<noteq> [] \<Longrightarrow> hd cleaned \<noteq> CHR ''_''"
  proof -
    assume n: "cleaned \<noteq> []"
    then have h: "hd cleaned = hd (stripLeadingUnderscores r)"
      unfolding cleaned_def by (rule stripTrailing_hd)
    have "stripLeadingUnderscores r \<noteq> []"
      using n stripTrailing_set [of "stripLeadingUnderscores r"] by (auto simp: cleaned_def)
    then show ?thesis using h by (simp add: stripLeading_hd)
  qed
  have hs: "hd safe \<noteq> CHR ''_''" using hc by (simp add: safe_def)
  have t1: "take 140 safe \<noteq> []" using ne by simp
  have t3: "\<forall>c\<in>set (take 140 safe). isSafeChar c" using ss by (meson in_set_takeD)
  have t4: "hd (take 140 safe) = hd safe" using ne by (cases safe) simp_all
  show ?thesis unfolding res using t1 t3 t4 hs by simp
qed

text \<open>
  Claim C10 holds but for its last part: the result is not empty, has at most 140
  characters of the class and does not start with an underscore (lemma
  \<open>sanitize_properties\<close>), yet it can end with one. The trailing underscores are stripped
  before the cut to 140 characters, and the cut can end on an underscore: 139 letters
  \<^verbatim>\<open>a\<close> followed by \<^verbatim>\<open>_b\<close> come back as the 139 letters and the underscore.
\<close>

theorem sanitize_trailing_underscore:
  "sanitizeFileComponent (replicate 139 (CHR ''a'') @ ''_b'') = replicate 139 (CHR ''a'') @ ''_''
   \<and> last (sanitizeFileComponent (replicate 139 (CHR ''a'') @ ''_b'')) = CHR ''_''"
proof -
  let ?s = "replicate 139 (CHR ''a'') @ ''_b''"
  have ne: "?s \<noteq> []" by simp
  have hd: "hd ?s = CHR ''a''" by (simp add: hd_append)
  have lst: "last ?s = CHR ''b''" by simp
  have t: "trim ?s = ?s" using ne by (rule trim_self) (simp_all only: hd lst nws_a nws_b not_False_eq_True)
  have "\<forall>c\<in>set ?s. isSafeChar c" using safe_a safe_b safe_us by auto
  then have r: "replaceUnsafe ?s = ?s" by (rule replaceUnsafe_all_safe)
  have l: "stripLeadingUnderscores ?s = ?s" using ne by (rule stripLeading_self) (simp add: hd)
  have tr: "stripTrailingUnderscores ?s = ?s" using ne by (rule stripTrailing_self) (simp add: lst)
  have "sanitizeFileComponent ?s = take 140 ?s"
    unfolding sanitizeFileComponent_def t r l tr by (simp add: Let_def)
  also have "take 140 ?s = replicate 139 (CHR ''a'') @ ''_''" by simp
  finally show ?thesis by simp
qed

section \<open>Properties of the promotion\<close>

lemma flush_tracking [simp]:
  "slugLastActivity (flushSlugBuffer env sl st) = slugLastActivity st"
  by (simp add: flushSlugBuffer_def Let_def split: option.splits)

lemma flush_calls [simp]: "r2Calls (flushSlugBuffer env sl st) = r2Calls st"
  by (simp add: flushSlugBuffer_def Let_def split: option.splits)

lemma flush_files_keep: "files st p \<noteq> None \<Longrightarrow> files (flushSlugBuffer env sl st) p \<noteq> None"
  by (simp add: flushSlugBuffer_def Let_def split: option.splits)

lemma upload_tracking:
  "slugLastActivity (snd (uploadSlugFileToR2 env sl st)) =
     (if fst (uploadSlugFileToR2 env sl st) then filter (\<lambda>p. fst p \<noteq> sl) (slugLastActivity st)
      else slugLastActivity st)"
  by (simp add: uploadSlugFileToR2_def Let_def split: option.splits)

lemma upload_success:
  "fst (uploadSlugFileToR2 env sl st) \<Longrightarrow> r2Configured env \<and> r2Accepts env (r2KeyFor sl)"
  by (simp add: uploadSlugFileToR2_def Let_def split: option.splits if_splits)

lemma upload_failure_files:
  "\<not> fst (uploadSlugFileToR2 env sl st) \<Longrightarrow>
     files (snd (uploadSlugFileToR2 env sl st)) = files (flushSlugBuffer env sl st)"
  by (simp add: uploadSlugFileToR2_def Let_def split: option.splits if_splits)

lemma upload_files_deleted:
  assumes "files st p \<noteq> None" and "files (snd (uploadSlugFileToR2 env sl st)) p = None"
  shows "fst (uploadSlugFileToR2 env sl st) \<and> p = slugFileName sl \<and> unlinkSucceeds env p"
proof -
  have k: "files (flushSlugBuffer env sl st) p \<noteq> None" using assms(1) by (rule flush_files_keep)
  show ?thesis
  proof (cases "fst (uploadSlugFileToR2 env sl st)")
    case False
    then show ?thesis using assms(2) k by (simp add: upload_failure_files)
  next
    case True
    then show ?thesis using assms(2) k
      by (auto simp: uploadSlugFileToR2_def Let_def split: option.splits if_splits)
  qed
qed

lemma upload_calls:
  "fst (uploadSlugFileToR2 env sl st) \<Longrightarrow>
     \<exists>content. content \<noteq> []
       \<and> files (flushSlugBuffer env sl st) (slugFileName sl) = Some content
       \<and> r2Calls (snd (uploadSlugFileToR2 env sl st)) = r2Calls st @ [(r2KeyFor sl, content)]"
  by (auto simp: uploadSlugFileToR2_def Let_def split: option.splits if_splits)

declare uploadEach.simps(2) [simp del]

lemma uploadEach_Cons:
  "fst (uploadEach env (sl # sls) st) =
     (sl, fst (uploadSlugFileToR2 env sl st)) # fst (uploadEach env sls (snd (uploadSlugFileToR2 env sl st)))"
  "snd (uploadEach env (sl # sls) st) = snd (uploadEach env sls (snd (uploadSlugFileToR2 env sl st)))"
  by (simp_all add: uploadEach.simps(2) split: prod.splits)

lemma uploadEach_slugs: "map fst (fst (uploadEach env sls st)) = sls"
  by (induction sls arbitrary: st) (simp_all add: uploadEach_Cons)

lemma uploadEach_tracking:
  "slugLastActivity (snd (uploadEach env sls st)) =
     filter (\<lambda>p. (fst p, True) \<notin> set (fst (uploadEach env sls st))) (slugLastActivity st)"
proof (induction sls arbitrary: st)
  case Nil show ?case by simp
next
  case (Cons sl sls)
  show ?case
    by (simp add: uploadEach_Cons Cons.IH upload_tracking)
qed

lemma uploadEach_success:
  "(sl, True) \<in> set (fst (uploadEach env sls st)) \<Longrightarrow> r2Configured env \<and> r2Accepts env (r2KeyFor sl)"
proof (induction sls arbitrary: st)
  case Nil then show ?case by simp
next
  case (Cons a sls)
  then show ?case using upload_success by (auto simp: uploadEach_Cons)
qed

lemma uploadEach_files_deleted:
  assumes "files st p \<noteq> None" and "files (snd (uploadEach env sls st)) p = None"
  shows "\<exists>sl. (sl, True) \<in> set (fst (uploadEach env sls st)) \<and> p = slugFileName sl"
  using assms
proof (induction sls arbitrary: st)
  case Nil then show ?case by simp
next
  case (Cons a sls)
  let ?st1 = "snd (uploadSlugFileToR2 env a st)"
  show ?case
  proof (cases "files ?st1 p = None")
    case True
    then have "fst (uploadSlugFileToR2 env a st) \<and> p = slugFileName a"
      using upload_files_deleted [OF Cons.prems(1)] by blast
    then show ?thesis by (auto simp: uploadEach_Cons)
  next
    case False
    moreover have "files (snd (uploadEach env sls ?st1)) p = None"
      using Cons.prems(2) by (simp add: uploadEach_Cons)
    ultimately obtain sl where "(sl, True) \<in> set (fst (uploadEach env sls ?st1))" and "p = slugFileName sl"
      using Cons.IH by blast
    then show ?thesis by (auto simp: uploadEach_Cons)
  qed
qed

lemma map_of_filter_key:
  "Q k \<Longrightarrow> map_of (filter (\<lambda>p. Q (fst p)) xs) k = map_of xs k"
  by (induction xs) auto

lemma inactive_subset: "set (inactiveSlugs now st) \<subseteq> fst ` set (slugLastActivity st)"
  by (auto simp: inactiveSlugs_def)

lemma inactive_distinct:
  "distinct (map fst (slugLastActivity st)) \<Longrightarrow> distinct (inactiveSlugs now st)"
  by (simp add: inactiveSlugs_def)

lemma check_slugs:
  "map fst (fst (checkAndUploadInactiveSlugs env now st)) =
     (if promotionDue now st then inactiveSlugs now st else [])"
  by (simp add: checkAndUploadInactiveSlugs_def uploadEach_slugs)

lemma check_tracking:
  "slugLastActivity (snd (checkAndUploadInactiveSlugs env now st)) =
     filter (\<lambda>p. (fst p, True) \<notin> set (fst (checkAndUploadInactiveSlugs env now st)))
       (slugLastActivity st)"
  by (simp add: checkAndUploadInactiveSlugs_def uploadEach_tracking)

lemma check_success:
  "(sl, True) \<in> set (fst (checkAndUploadInactiveSlugs env now st)) \<Longrightarrow>
     r2Configured env \<and> r2Accepts env (r2KeyFor sl)"
  using uploadEach_success by (auto simp: checkAndUploadInactiveSlugs_def split: if_splits)

lemma check_files_deleted:
  assumes "files st p \<noteq> None" and "files (snd (checkAndUploadInactiveSlugs env now st)) p = None"
  shows "\<exists>sl. (sl, True) \<in> set (fst (checkAndUploadInactiveSlugs env now st)) \<and> p = slugFileName sl"
proof (cases "promotionDue now st")
  case True
  then show ?thesis using uploadEach_files_deleted [OF assms(1)] assms(2)
    by (simp add: checkAndUploadInactiveSlugs_def)
next
  case False
  then show ?thesis using assms by (simp add: checkAndUploadInactiveSlugs_def)
qed

lemma outcome_unique:
  assumes "distinct (map fst rs)" and "(sl, a) \<in> set rs" and "(sl, b) \<in> set rs"
  shows "a = b"
  using assms by (meson eq_key_imp_eq_value)

lemma upload_calls_step:
  "\<exists>cs. r2Calls (snd (uploadSlugFileToR2 env sl st)) = r2Calls st @ cs
        \<and> (\<forall>c\<in>set cs. fst c = r2KeyFor sl)
        \<and> (fst (uploadSlugFileToR2 env sl st) \<longrightarrow>
             (\<exists>content. content \<noteq> [] \<and> (r2KeyFor sl, content) \<in> set cs))"
  by (auto simp: uploadSlugFileToR2_def Let_def split: option.splits)

lemma uploadEach_calls:
  "\<exists>cs. r2Calls (snd (uploadEach env sls st)) = r2Calls st @ cs
        \<and> (\<forall>c\<in>set cs. fst c \<in> r2KeyFor ` set sls)
        \<and> (\<forall>sl. (sl, True) \<in> set (fst (uploadEach env sls st)) \<longrightarrow>
             (\<exists>content. content \<noteq> [] \<and> (r2KeyFor sl, content) \<in> set cs))"
proof (induction sls arbitrary: st)
  case Nil show ?case by simp
next
  case (Cons a sls)
  let ?st1 = "snd (uploadSlugFileToR2 env a st)"
  obtain c1 where c1: "r2Calls ?st1 = r2Calls st @ c1" "\<forall>c\<in>set c1. fst c = r2KeyFor a"
      "fst (uploadSlugFileToR2 env a st) \<longrightarrow>
             (\<exists>content. content \<noteq> [] \<and> (r2KeyFor a, content) \<in> set c1)"
    using upload_calls_step [of env a st] by blast
  obtain c2 where c2: "r2Calls (snd (uploadEach env sls ?st1)) = r2Calls ?st1 @ c2"
      "\<forall>c\<in>set c2. fst c \<in> r2KeyFor ` set sls"
      "\<forall>sl. (sl, True) \<in> set (fst (uploadEach env sls ?st1)) \<longrightarrow>
             (\<exists>content. content \<noteq> [] \<and> (r2KeyFor sl, content) \<in> set c2)"
    using Cons.IH [of ?st1] by blast
  have 1: "r2Calls (snd (uploadEach env (a # sls) st)) = r2Calls st @ (c1 @ c2)"
    by (simp add: uploadEach_Cons c1(1) c2(1))
  have 2: "\<forall>c\<in>set (c1 @ c2). fst c \<in> r2KeyFor ` set (a # sls)"
    using c1(2) c2(2) by auto
  have 3: "\<forall>sl. (sl, True) \<in> set (fst (uploadEach env (a # sls) st)) \<longrightarrow>
             (\<exists>content. content \<noteq> [] \<and> (r2KeyFor sl, content) \<in> set (c1 @ c2))"
  proof (intro allI impI)
    fix sl assume "(sl, True) \<in> set (fst (uploadEach env (a # sls) st))"
    then consider "sl = a \<and> fst (uploadSlugFileToR2 env a st)"
      | "(sl, True) \<in> set (fst (uploadEach env sls ?st1))"
      by (auto simp: uploadEach_Cons)
    then show "\<exists>content. content \<noteq> [] \<and> (r2KeyFor sl, content) \<in> set (c1 @ c2)"
    proof cases
      case 1 then show ?thesis using c1(3) by auto
    next
      case 2 then show ?thesis using c2(3) by auto
    qed
  qed
  show ?case using 1 2 3 by blast
qed

lemma check_calls:
  "\<exists>cs. r2Calls (snd (checkAndUploadInactiveSlugs env now st)) = r2Calls st @ cs
        \<and> (\<forall>c\<in>set cs. fst c \<in> r2KeyFor ` fst ` set (fst (checkAndUploadInactiveSlugs env now st)))
        \<and> (\<forall>sl. (sl, True) \<in> set (fst (checkAndUploadInactiveSlugs env now st)) \<longrightarrow>
             (\<exists>content. content \<noteq> [] \<and> (r2KeyFor sl, content) \<in> set cs))"
proof (cases "promotionDue now st")
  case True
  obtain cs where cs: "r2Calls (snd (uploadEach env (inactiveSlugs now st) st)) = r2Calls st @ cs"
      "\<forall>c\<in>set cs. fst c \<in> r2KeyFor ` set (inactiveSlugs now st)"
      "\<forall>sl. (sl, True) \<in> set (fst (uploadEach env (inactiveSlugs now st) st)) \<longrightarrow>
             (\<exists>content. content \<noteq> [] \<and> (r2KeyFor sl, content) \<in> set cs)"
    using uploadEach_calls [of env "inactiveSlugs now st" st] by blast
  have "set (inactiveSlugs now st) = fst ` set (fst (uploadEach env (inactiveSlugs now st) st))"
    using uploadEach_slugs [of env "inactiveSlugs now st" st] by (metis set_map)
  then show ?thesis using True cs by (auto simp: checkAndUploadInactiveSlugs_def)
next
  case False
  then show ?thesis by (simp add: checkAndUploadInactiveSlugs_def)
qed

lemma flush_files_other:
  "p \<noteq> slugFileName sl \<Longrightarrow> files (flushSlugBuffer env sl st) p = files st p"
  by (simp add: flushSlugBuffer_def Let_def split: option.splits)

lemma upload_files_other:
  "p \<noteq> slugFileName sl \<Longrightarrow> files (snd (uploadSlugFileToR2 env sl st)) p = files st p"
  by (simp add: uploadSlugFileToR2_def Let_def flush_files_other split: option.splits)

lemma flush_content:
  assumes "files st (slugFileName sl) = Some evs" and "readSucceeds env (slugFileName sl)"
  shows "\<exists>content. files (flushSlugBuffer env sl st) (slugFileName sl) = Some content
           \<and> set evs \<subseteq> set content"
  using assms by (auto simp: flushSlugBuffer_def Let_def split: option.splits)

lemma upload_content:
  assumes "fst (uploadSlugFileToR2 env sl st)" and "files st (slugFileName sl) = Some evs"
  shows "\<exists>content. set evs \<subseteq> set content
           \<and> r2Calls (snd (uploadSlugFileToR2 env sl st)) = r2Calls st @ [(r2KeyFor sl, content)]"
proof -
  have r: "readSucceeds env (slugFileName sl)"
    using assms(1) by (auto simp: uploadSlugFileToR2_def Let_def split: option.splits if_splits)
  from flush_content [OF assms(2) r] obtain content where
    c: "files (flushSlugBuffer env sl st) (slugFileName sl) = Some content" "set evs \<subseteq> set content"
    by blast
  from upload_calls [OF assms(1)] c(1)
  have "r2Calls (snd (uploadSlugFileToR2 env sl st)) = r2Calls st @ [(r2KeyFor sl, content)]" by auto
  then show ?thesis using c(2) by blast
qed

lemma uploadEach_content:
  assumes "distinct (map slugFileName sls)"
    and "(sl, True) \<in> set (fst (uploadEach env sls st))"
    and "files st (slugFileName sl) = Some evs"
  shows "\<exists>content. set evs \<subseteq> set content
           \<and> (r2KeyFor sl, content)
                \<in> set (drop (length (r2Calls st)) (r2Calls (snd (uploadEach env sls st))))"
  using assms
proof (induction sls arbitrary: st)
  case Nil then show ?case by simp
next
  case (Cons a sls)
  let ?st1 = "snd (uploadSlugFileToR2 env a st)"
  obtain c1 where c1: "r2Calls ?st1 = r2Calls st @ c1"
    using upload_calls_step [of env a st] by blast
  obtain c2 where c2: "r2Calls (snd (uploadEach env sls ?st1)) = r2Calls ?st1 @ c2"
    using uploadEach_calls [of env sls ?st1] by blast
  have fin: "r2Calls (snd (uploadEach env (a # sls) st)) = r2Calls st @ c1 @ c2"
    by (simp add: uploadEach_Cons c1 c2)
  have new: "drop (length (r2Calls st)) (r2Calls (snd (uploadEach env (a # sls) st))) = c1 @ c2"
    by (simp add: fin)
  have new2: "drop (length (r2Calls ?st1)) (r2Calls (snd (uploadEach env sls ?st1))) = c2"
    by (simp add: c2)
  from Cons.prems(2) consider "sl = a \<and> fst (uploadSlugFileToR2 env a st)"
    | "(sl, True) \<in> set (fst (uploadEach env sls ?st1))"
    by (auto simp: uploadEach_Cons)
  then show ?case
  proof cases
    case 1
    then obtain content where "set evs \<subseteq> set content"
      "r2Calls ?st1 = r2Calls st @ [(r2KeyFor sl, content)]"
      using upload_content [of env a st evs] Cons.prems(3) by blast
    then have "set evs \<subseteq> set content \<and> (r2KeyFor sl, content) \<in> set (c1 @ c2)"
      using c1 by simp
    then show ?thesis unfolding new by blast
  next
    case 2
    then have "sl \<in> set (map fst (fst (uploadEach env sls ?st1)))" by force
    then have "sl \<in> set sls" by (simp only: uploadEach_slugs)
    then have "slugFileName sl \<in> slugFileName ` set sls" by (rule imageI)
    moreover have "slugFileName a \<notin> slugFileName ` set sls" using Cons.prems(1) by simp
    ultimately have "slugFileName sl \<noteq> slugFileName a" by metis
    then have f: "files ?st1 (slugFileName sl) = Some evs"
      using Cons.prems(3) by (simp add: upload_files_other)
    have "distinct (map slugFileName sls)" using Cons.prems(1) by simp
    from Cons.IH [OF this 2 f] obtain content where
      "set evs \<subseteq> set content" "(r2KeyFor sl, content) \<in> set c2"
      unfolding new2 by blast
    then show ?thesis unfolding new by auto
  qed
qed

lemma check_content:
  assumes "distinct (map slugFileName (map fst (slugLastActivity st)))"
    and "(sl, True) \<in> set (fst (checkAndUploadInactiveSlugs env now st))"
    and "files st (slugFileName sl) = Some evs"
  shows "\<exists>content. set evs \<subseteq> set content
           \<and> (r2KeyFor sl, content)
                \<in> set (drop (length (r2Calls st)) (r2Calls (snd (checkAndUploadInactiveSlugs env now st))))"
proof (cases "promotionDue now st")
  case True
  have "distinct (map slugFileName (inactiveSlugs now st))"
    unfolding inactiveSlugs_def using assms(1) by (rule distinct_map_filter)
  then show ?thesis
    using uploadEach_content [of "inactiveSlugs now st" sl env st evs] assms(2,3) True
    by (simp add: checkAndUploadInactiveSlugs_def)
next
  case False
  then show ?thesis using assms(2) by (simp add: checkAndUploadInactiveSlugs_def)
qed

lemma calls_drop: "ys = xs @ cs \<Longrightarrow> cs = drop (length xs) ys" by simp

lemma filter_shorter: "length (filter P xs) < length xs \<longleftrightarrow> (\<exists>x\<in>set xs. \<not> P x)"
  by (metis filter_True length_filter_le length_filter_less nat_less_le)

lemma promotionDue_active:
  "promotionDue now st \<longleftrightarrow>
     inactiveSlugs now st \<noteq> []
     \<and> (\<exists>s\<in>fst ` set (slugLastActivity st). s \<notin> set (inactiveSlugs now st))"
proof -
  define P where "P = (\<lambda>slug. now - (case map_of (slugLastActivity st) slug of None \<Rightarrow> 0 | Some lastActivity \<Rightarrow> lastActivity)
                  \<ge> SLUG_INACTIVITY_THRESHOLD_MS)"
  define xs where "xs = map fst (slugLastActivity st)"
  have i: "inactiveSlugs now st = filter P xs" by (simp add: inactiveSlugs_def P_def xs_def)
  have s: "fst ` set (slugLastActivity st) = set xs" by (simp add: xs_def)
  have "promotionDue now st \<longleftrightarrow> length (filter P xs) > 0 \<and> length xs > length (filter P xs)"
    by (simp only: promotionDue_def i xs_def)
  also have "\<dots> \<longleftrightarrow> filter P xs \<noteq> [] \<and> (\<exists>x\<in>set xs. \<not> P x)"
    by (simp only: filter_shorter length_greater_0_conv)
  also have "\<dots> \<longleftrightarrow> filter P xs \<noteq> [] \<and> (\<exists>x\<in>set xs. x \<notin> set (filter P xs))"
    by auto
  finally show ?thesis by (simp only: i s)
qed

lemma sanitizeSlug_id:
  assumes "s \<noteq> []" and "\<forall>c\<in>set s. isSafeChar c" and "hd s \<noteq> CHR ''_''" and "last s \<noteq> CHR ''_''"
  shows "sanitizeSlug s = s"
proof -
  have nw: "\<not> isWhiteSpace c" if "isSafeChar c" for c
    using that by (auto simp: isSafeChar_def isWhiteSpace_def Let_def)
  have "\<not> isWhiteSpace (hd s)" "\<not> isWhiteSpace (last s)" using assms(1,2) nw by simp_all
  then have "trim s = s" using assms(1) by (simp add: trim_self)
  then show ?thesis
    using assms by (simp add: sanitizeSlug_def replaceUnsafe_all_safe stripLeading_self stripTrailing_self)
qed

lemma example_names:
  "slugFileName ''eth-a'' = ''eth-a.jsonl''" "slugFileName ''eth-b'' = ''eth-b.jsonl''"
proof -
  have "sanitizeSlug ''eth-a'' = ''eth-a''" by (rule sanitizeSlug_id) (simp_all add: isSafeChar_def)
  moreover have "sanitizeSlug ''eth-b'' = ''eth-b''" by (rule sanitizeSlug_id) (simp_all add: isSafeChar_def)
  ultimately show "slugFileName ''eth-a'' = ''eth-a.jsonl''" "slugFileName ''eth-b'' = ''eth-b.jsonl''"
    by (simp_all add: slugFileName_def)
qed

lemma example_first_check:
  "fst (checkAndUploadInactiveSlugs example_env 301000 example_slugs) = [(''eth-a'', True)]"
  "slugLastActivity (snd (checkAndUploadInactiveSlugs example_env 301000 example_slugs)) = [(''eth-b'', 200000)]"
  "files (snd (checkAndUploadInactiveSlugs example_env 301000 example_slugs)) ''eth-a.jsonl'' = None"
proof -
  have i: "inactiveSlugs 301000 example_slugs = [''eth-a'']"
    by (simp add: inactiveSlugs_def example_slugs_def SLUG_INACTIVITY_THRESHOLD_MS_def)
  have g: "promotionDue 301000 example_slugs" by (simp add: promotionDue_def i) (simp add: example_slugs_def)
  have f: "flushSlugBuffer example_env ''eth-a'' example_slugs = example_slugs"
    by (simp add: flushSlugBuffer_def example_slugs_def)
  have u: "uploadSlugFileToR2 example_env ''eth-a'' example_slugs =
      (True, example_slugs\<lparr> r2Calls := [(r2KeyFor ''eth-a'', [\<lparr> se_receivedAtMs = 0, se_data = ''{}'' \<rparr>])],
                slugFileStreams := {''eth-a'', ''eth-b''} - {''eth-a''},
                files := (files example_slugs)(''eth-a.jsonl'' := None),
                slugLastActivity := [(''eth-b'', 200000)],
                slugEventCounts := (slugEventCounts example_slugs)(''eth-a'' := None) \<rparr>)"
    unfolding uploadSlugFileToR2_def f example_names Let_def
    by (simp add: example_slugs_def example_env_def)
  show "fst (checkAndUploadInactiveSlugs example_env 301000 example_slugs) = [(''eth-a'', True)]"
    by (simp add: checkAndUploadInactiveSlugs_def g i uploadEach_Cons u)
  show "slugLastActivity (snd (checkAndUploadInactiveSlugs example_env 301000 example_slugs)) = [(''eth-b'', 200000)]"
    by (simp add: checkAndUploadInactiveSlugs_def g i uploadEach_Cons u)
  show "files (snd (checkAndUploadInactiveSlugs example_env 301000 example_slugs)) ''eth-a.jsonl'' = None"
    by (simp add: checkAndUploadInactiveSlugs_def g i uploadEach_Cons u)
qed

lemma example_refused_check:
  assumes "300000 \<le> now" and "now < 500000"
  shows "checkAndUploadInactiveSlugs refusing_env now example_slugs =
     ([(''eth-a'', False)],
      example_slugs\<lparr> r2Calls := [(r2KeyFor ''eth-a'', [\<lparr> se_receivedAtMs = 0, se_data = ''{}'' \<rparr>])] \<rparr>)"
proof -
  have i: "inactiveSlugs now example_slugs = [''eth-a'']"
    using assms by (simp add: inactiveSlugs_def example_slugs_def SLUG_INACTIVITY_THRESHOLD_MS_def)
  have g: "promotionDue now example_slugs" by (simp add: promotionDue_def i) (simp add: example_slugs_def)
  have f: "flushSlugBuffer refusing_env ''eth-a'' example_slugs = example_slugs"
    by (simp add: flushSlugBuffer_def example_slugs_def)
  have u: "uploadSlugFileToR2 refusing_env ''eth-a'' example_slugs =
      (False, example_slugs\<lparr> r2Calls := [(r2KeyFor ''eth-a'', [\<lparr> se_receivedAtMs = 0, se_data = ''{}'' \<rparr>])] \<rparr>)"
    unfolding uploadSlugFileToR2_def f example_names Let_def
    by (simp add: example_slugs_def example_env_def refusing_env_def)
  show ?thesis
    by (simp add: checkAndUploadInactiveSlugs_def g i uploadEach.simps(2) u)
qed

lemma example_all_inactive:
  "\<not> promotionDue 501000 (example_slugs\<lparr> r2Calls := cs \<rparr>)"
  by (simp add: promotionDue_def inactiveSlugs_def example_slugs_def SLUG_INACTIVITY_THRESHOLD_MS_def)

lemma example_still_active:
  "inactiveSlugs 361000 (example_slugs\<lparr> r2Calls := cs \<rparr>) = [''eth-a'']"
  by (simp add: inactiveSlugs_def example_slugs_def SLUG_INACTIVITY_THRESHOLD_MS_def)

text \<open>
  Claim C9 says that a promotion whose upload failed is retried on the next check cycle.
  The check uploads only while some tracked market is still active. Market \<^verbatim>\<open>eth-a\<close>, silent
  since 0, is refused by the storage at the check of 441000, while \<^verbatim>\<open>eth-b\<close>, last seen at
  200000, is active. At the next check, a minute later, \<^verbatim>\<open>eth-b\<close> has been silent for 301 s
  as well: with storage that accepts, the check uploads nothing and leaves the state as it
  is.
\<close>

theorem promotion_retry_counterexample:
  "fst (checkAndUploadInactiveSlugs refusing_env 441000 example_slugs) = [(''eth-a'', False)]
   \<and> checkAndUploadInactiveSlugs example_env 501000
         (snd (checkAndUploadInactiveSlugs refusing_env 441000 example_slugs))
       = ([], snd (checkAndUploadInactiveSlugs refusing_env 441000 example_slugs))"
proof -
  have first: "checkAndUploadInactiveSlugs refusing_env 441000 example_slugs =
     ([(''eth-a'', False)],
      example_slugs\<lparr> r2Calls := [(r2KeyFor ''eth-a'', [\<lparr> se_receivedAtMs = 0, se_data = ''{}'' \<rparr>])] \<rparr>)"
    by (rule example_refused_check) simp_all
  show ?thesis
    unfolding first by (simp add: checkAndUploadInactiveSlugs_def example_all_inactive)
qed

text \<open>
  Claim C9, as the code has it. Two consecutive checks, the second not earlier than the
  first, on a state whose tracked markets are distinct. A file that was there before the
  first check and is gone after it is the file of a market for which that check called the
  storage client with a non-empty content and the client reported success. A market whose
  upload succeeded was uploaded in this way, is no longer tracked, and the second check
  does not upload it; when no two tracked markets share a file name, the content handed to
  the client holds every event the file held before the check. A market whose upload
  failed is still tracked; its file is still there unless a market with the same file name
  succeeded; the second check uploads it again if some tracked market is active at that
  time, and otherwise uploads nothing and changes nothing. Each check only adds calls to
  the record of the storage client, and every call it adds is for a market it reports on.
\<close>

theorem promotion_after_upload:
  assumes "distinct (map fst (slugLastActivity st))"
    and "checkAndUploadInactiveSlugs env1 now1 st = (res1, st1)"
    and "checkAndUploadInactiveSlugs env2 now2 st1 = (res2, st2)"
    and "now1 \<le> now2"
  shows "(files st p \<noteq> None \<and> files st1 p = None \<longrightarrow>
            (\<exists>s content. (s, True) \<in> set res1 \<and> p = slugFileName s \<and> content \<noteq> []
               \<and> (r2KeyFor s, content) \<in> set (drop (length (r2Calls st)) (r2Calls st1))
               \<and> r2Accepts env1 (r2KeyFor s)))
       \<and> ((sl, True) \<in> set res1 \<longrightarrow>
            r2Configured env1 \<and> r2Accepts env1 (r2KeyFor sl)
            \<and> (\<exists>content. content \<noteq> []
                  \<and> (r2KeyFor sl, content) \<in> set (drop (length (r2Calls st)) (r2Calls st1)))
            \<and> sl \<notin> fst ` set (slugLastActivity st1) \<and> sl \<notin> fst ` set res2)
       \<and> ((sl, True) \<in> set res1 \<and> files st (slugFileName sl) = Some evs
            \<and> distinct (map slugFileName (map fst (slugLastActivity st))) \<longrightarrow>
            (\<exists>content. set evs \<subseteq> set content
               \<and> (r2KeyFor sl, content) \<in> set (drop (length (r2Calls st)) (r2Calls st1))))
       \<and> ((sl, False) \<in> set res1 \<longrightarrow>
            sl \<in> fst ` set (slugLastActivity st1)
            \<and> (files st (slugFileName sl) \<noteq> None
                 \<and> (\<forall>s. (s, True) \<in> set res1 \<longrightarrow> slugFileName s \<noteq> slugFileName sl) \<longrightarrow>
                 files st1 (slugFileName sl) \<noteq> None)
            \<and> ((\<exists>s\<in>fst ` set (slugLastActivity st1). s \<notin> set (inactiveSlugs now2 st1)) \<longrightarrow>
                 sl \<in> fst ` set res2)
            \<and> (\<not> (\<exists>s\<in>fst ` set (slugLastActivity st1). s \<notin> set (inactiveSlugs now2 st1)) \<longrightarrow>
                 res2 = [] \<and> st2 = st1))
       \<and> r2Calls st1 = r2Calls st @ drop (length (r2Calls st)) (r2Calls st1)
       \<and> r2Calls st2 = r2Calls st1 @ drop (length (r2Calls st1)) (r2Calls st2)
       \<and> (\<forall>c\<in>set (drop (length (r2Calls st)) (r2Calls st1)). fst c \<in> r2KeyFor ` fst ` set res1)
       \<and> (\<forall>c\<in>set (drop (length (r2Calls st1)) (r2Calls st2)). fst c \<in> r2KeyFor ` fst ` set res2)"
proof -
  let ?L = "slugLastActivity st"
  let ?new1 = "drop (length (r2Calls st)) (r2Calls st1)"
  let ?new2 = "drop (length (r2Calls st1)) (r2Calls st2)"
  have r1: "res1 = fst (checkAndUploadInactiveSlugs env1 now1 st)"
    and s1: "st1 = snd (checkAndUploadInactiveSlugs env1 now1 st)"
    using assms(2) by simp_all
  have r2: "res2 = fst (checkAndUploadInactiveSlugs env2 now2 st1)"
    and s2: "st2 = snd (checkAndUploadInactiveSlugs env2 now2 st1)"
    using assms(3) by simp_all
  have slugs1: "map fst res1 = (if promotionDue now1 st then inactiveSlugs now1 st else [])"
    unfolding r1 by (rule check_slugs)
  have slugs2: "map fst res2 = (if promotionDue now2 st1 then inactiveSlugs now2 st1 else [])"
    unfolding r2 by (rule check_slugs)
  have track: "slugLastActivity st1 = filter (\<lambda>p. (fst p, True) \<notin> set res1) ?L"
    unfolding r1 s1 by (rule check_tracking)
  have d1: "distinct (map fst res1)"
    using slugs1 inactive_distinct [OF assms(1), of now1] by simp
  have in2: "set (map fst res2) \<subseteq> fst ` set (slugLastActivity st1)"
    using slugs2 inactive_subset [of now2 st1] by (simp split: if_splits)
  obtain cs1 where cs1: "r2Calls st1 = r2Calls st @ cs1"
      "\<forall>c\<in>set cs1. fst c \<in> r2KeyFor ` fst ` set res1"
      "\<forall>s. (s, True) \<in> set res1 \<longrightarrow> (\<exists>content. content \<noteq> [] \<and> (r2KeyFor s, content) \<in> set cs1)"
    using check_calls [of env1 now1 st] unfolding r1 s1 by blast
  obtain cs2 where cs2: "r2Calls st2 = r2Calls st1 @ cs2"
      "\<forall>c\<in>set cs2. fst c \<in> r2KeyFor ` fst ` set res2"
    using check_calls [of env2 now2 st1] unfolding r2 s2 by blast
  have n1: "cs1 = ?new1" using cs1(1) by (rule calls_drop)
  have n2: "cs2 = ?new2" using cs2(1) by (rule calls_drop)
  have called: "(s, True) \<in> set res1 \<Longrightarrow>
      \<exists>content. content \<noteq> [] \<and> (r2KeyFor s, content) \<in> set ?new1" for s
    using cs1(3) unfolding n1 by blast
  have accepted: "(s, True) \<in> set res1 \<Longrightarrow> r2Configured env1 \<and> r2Accepts env1 (r2KeyFor s)" for s
    unfolding r1 using check_success by blast
  have deleted: "files st q \<noteq> None \<Longrightarrow> files st1 q = None \<Longrightarrow>
      \<exists>s. (s, True) \<in> set res1 \<and> q = slugFileName s" for q
    unfolding r1 s1 using check_files_deleted by blast
  have a: "files st p \<noteq> None \<and> files st1 p = None \<longrightarrow>
            (\<exists>s content. (s, True) \<in> set res1 \<and> p = slugFileName s \<and> content \<noteq> []
               \<and> (r2KeyFor s, content) \<in> set ?new1 \<and> r2Accepts env1 (r2KeyFor s))"
  proof
    assume "files st p \<noteq> None \<and> files st1 p = None"
    then obtain s where s: "(s, True) \<in> set res1" "p = slugFileName s" using deleted by blast
    from called [OF s(1)] obtain content where "content \<noteq> []" "(r2KeyFor s, content) \<in> set ?new1"
      by blast
    then show "\<exists>s content. (s, True) \<in> set res1 \<and> p = slugFileName s \<and> content \<noteq> []
               \<and> (r2KeyFor s, content) \<in> set ?new1 \<and> r2Accepts env1 (r2KeyFor s)"
      using s accepted [OF s(1)] by blast
  qed
  have b: "(sl, True) \<in> set res1 \<longrightarrow>
            r2Configured env1 \<and> r2Accepts env1 (r2KeyFor sl)
            \<and> (\<exists>content. content \<noteq> [] \<and> (r2KeyFor sl, content) \<in> set ?new1)
            \<and> sl \<notin> fst ` set (slugLastActivity st1) \<and> sl \<notin> fst ` set res2"
  proof
    assume t: "(sl, True) \<in> set res1"
    then have u: "sl \<notin> fst ` set (slugLastActivity st1)" by (auto simp: track)
    then have "sl \<notin> set (map fst res2)" using in2 by blast
    then have "sl \<notin> fst ` set res2" by simp
    then show "r2Configured env1 \<and> r2Accepts env1 (r2KeyFor sl)
            \<and> (\<exists>content. content \<noteq> [] \<and> (r2KeyFor sl, content) \<in> set ?new1)
            \<and> sl \<notin> fst ` set (slugLastActivity st1) \<and> sl \<notin> fst ` set res2"
      using accepted [OF t] called [OF t] u by blast
  qed
  have c: "(sl, False) \<in> set res1 \<longrightarrow>
            sl \<in> fst ` set (slugLastActivity st1)
            \<and> (files st (slugFileName sl) \<noteq> None
                 \<and> (\<forall>s. (s, True) \<in> set res1 \<longrightarrow> slugFileName s \<noteq> slugFileName sl) \<longrightarrow>
                 files st1 (slugFileName sl) \<noteq> None)
            \<and> ((\<exists>s\<in>fst ` set (slugLastActivity st1). s \<notin> set (inactiveSlugs now2 st1)) \<longrightarrow>
                 sl \<in> fst ` set res2)
            \<and> (\<not> (\<exists>s\<in>fst ` set (slugLastActivity st1). s \<notin> set (inactiveSlugs now2 st1)) \<longrightarrow>
                 res2 = [] \<and> st2 = st1)"
  proof
    assume f: "(sl, False) \<in> set res1"
    then have nt: "(sl, True) \<notin> set res1" using outcome_unique [OF d1] by blast
    from f have "sl \<in> set (map fst res1)" by force
    then have ina: "sl \<in> set (inactiveSlugs now1 st)" using slugs1 by (simp split: if_splits)
    then have inL: "sl \<in> fst ` set ?L" using inactive_subset by blast
    then obtain v where v: "(sl, v) \<in> set ?L" by auto
    then have "(sl, v) \<in> set (slugLastActivity st1)" using nt by (simp add: track)
    then have tracked: "sl \<in> fst ` set (slugLastActivity st1)" by force
    have same: "map_of (slugLastActivity st1) sl = map_of ?L sl"
      unfolding track using nt map_of_filter_key [of "\<lambda>k. (k, True) \<notin> set res1" sl ?L] by simp
    have old: "now1 - (case map_of ?L sl of None \<Rightarrow> 0 | Some lastActivity \<Rightarrow> lastActivity)
        \<ge> SLUG_INACTIVITY_THRESHOLD_MS"
      using ina by (simp add: inactiveSlugs_def)
    have "now2 - (case map_of (slugLastActivity st1) sl of None \<Rightarrow> 0 | Some lastActivity \<Rightarrow> lastActivity)
        \<ge> SLUG_INACTIVITY_THRESHOLD_MS"
      using old assms(4) by (simp only: same)
    then have ina2: "sl \<in> set (inactiveSlugs now2 st1)" using tracked by (simp add: inactiveSlugs_def)
    then have ne: "inactiveSlugs now2 st1 \<noteq> []" by auto
    have due: "promotionDue now2 st1 \<longleftrightarrow>
        (\<exists>s\<in>fst ` set (slugLastActivity st1). s \<notin> set (inactiveSlugs now2 st1))"
      using ne by (simp only: promotionDue_active simp_thms)
    have retry: "(\<exists>s\<in>fst ` set (slugLastActivity st1). s \<notin> set (inactiveSlugs now2 st1)) \<longrightarrow>
                 sl \<in> fst ` set res2"
    proof
      assume "\<exists>s\<in>fst ` set (slugLastActivity st1). s \<notin> set (inactiveSlugs now2 st1)"
      then have "promotionDue now2 st1" using due by blast
      then have "sl \<in> set (map fst res2)" using slugs2 ina2 by simp
      then show "sl \<in> fst ` set res2" by simp
    qed
    have idle: "\<not> (\<exists>s\<in>fst ` set (slugLastActivity st1). s \<notin> set (inactiveSlugs now2 st1)) \<longrightarrow>
                 res2 = [] \<and> st2 = st1"
    proof
      assume "\<not> (\<exists>s\<in>fst ` set (slugLastActivity st1). s \<notin> set (inactiveSlugs now2 st1))"
      then have "\<not> promotionDue now2 st1" using due by blast
      then show "res2 = [] \<and> st2 = st1" unfolding r2 s2 by (simp add: checkAndUploadInactiveSlugs_def)
    qed
    have kept: "files st (slugFileName sl) \<noteq> None
                 \<and> (\<forall>s. (s, True) \<in> set res1 \<longrightarrow> slugFileName s \<noteq> slugFileName sl) \<longrightarrow>
                 files st1 (slugFileName sl) \<noteq> None"
      using deleted [of "slugFileName sl"] by metis
    show "sl \<in> fst ` set (slugLastActivity st1)
            \<and> (files st (slugFileName sl) \<noteq> None
                 \<and> (\<forall>s. (s, True) \<in> set res1 \<longrightarrow> slugFileName s \<noteq> slugFileName sl) \<longrightarrow>
                 files st1 (slugFileName sl) \<noteq> None)
            \<and> ((\<exists>s\<in>fst ` set (slugLastActivity st1). s \<notin> set (inactiveSlugs now2 st1)) \<longrightarrow>
                 sl \<in> fst ` set res2)
            \<and> (\<not> (\<exists>s\<in>fst ` set (slugLastActivity st1). s \<notin> set (inactiveSlugs now2 st1)) \<longrightarrow>
                 res2 = [] \<and> st2 = st1)"
      by (rule conjI [OF tracked conjI [OF kept conjI [OF retry idle]]])
  qed
  have b': "(sl, True) \<in> set res1 \<and> files st (slugFileName sl) = Some evs
            \<and> distinct (map slugFileName (map fst (slugLastActivity st))) \<longrightarrow>
            (\<exists>content. set evs \<subseteq> set content \<and> (r2KeyFor sl, content) \<in> set ?new1)"
    unfolding r1 s1 using check_content [of st sl env1 now1 evs] by blast
  have e1: "r2Calls st1 = r2Calls st @ ?new1" using cs1(1) unfolding n1 .
  have e2: "r2Calls st2 = r2Calls st1 @ ?new2" using cs2(1) unfolding n2 .
  have k1: "\<forall>c\<in>set ?new1. fst c \<in> r2KeyFor ` fst ` set res1" using cs1(2) unfolding n1 .
  have k2: "\<forall>c\<in>set ?new2. fst c \<in> r2KeyFor ` fst ` set res2" using cs2(2) unfolding n2 .
  show ?thesis
    by (rule conjI [OF a conjI [OF b conjI [OF b' conjI [OF c conjI [OF e1 conjI [OF e2 conjI [OF k1 k2]]]]]]])
qed

text \<open>
  Market \<^verbatim>\<open>eth-a\<close> silent for 301 s while \<^verbatim>\<open>eth-b\<close> is active. With storage that accepts,
  the first check uploads \<^verbatim>\<open>eth-a\<close> and removes its file, and the check a minute later does
  not upload it again. With storage that refuses, \<^verbatim>\<open>eth-a\<close> stays tracked and keeps its
  file, and the check a minute later, when \<^verbatim>\<open>eth-b\<close> is still active, uploads it again.
\<close>

theorem promotion_after_upload_witness:
  "distinct (map fst (slugLastActivity example_slugs))
   \<and> (301000::int) \<le> 361000
   \<and> fst (checkAndUploadInactiveSlugs example_env 301000 example_slugs) = [(''eth-a'', True)]
   \<and> files example_slugs ''eth-a.jsonl'' \<noteq> None
   \<and> files (snd (checkAndUploadInactiveSlugs example_env 301000 example_slugs)) ''eth-a.jsonl'' = None
   \<and> (\<exists>content. content \<noteq> []
         \<and> (r2KeyFor ''eth-a'', content)
              \<in> set (r2Calls (snd (checkAndUploadInactiveSlugs example_env 301000 example_slugs))))
   \<and> (\<exists>content. \<lparr> se_receivedAtMs = 0, se_data = ''{}'' \<rparr> \<in> set content
         \<and> (r2KeyFor ''eth-a'', content)
              \<in> set (r2Calls (snd (checkAndUploadInactiveSlugs example_env 301000 example_slugs))))
   \<and> ''eth-a'' \<notin> fst ` set (slugLastActivity
         (snd (checkAndUploadInactiveSlugs example_env 301000 example_slugs)))
   \<and> ''eth-a'' \<notin> fst ` set (fst (checkAndUploadInactiveSlugs example_env 361000
         (snd (checkAndUploadInactiveSlugs example_env 301000 example_slugs))))
   \<and> fst (checkAndUploadInactiveSlugs refusing_env 301000 example_slugs) = [(''eth-a'', False)]
   \<and> ''eth-a'' \<in> fst ` set (slugLastActivity
         (snd (checkAndUploadInactiveSlugs refusing_env 301000 example_slugs)))
   \<and> files (snd (checkAndUploadInactiveSlugs refusing_env 301000 example_slugs)) ''eth-a.jsonl'' \<noteq> None
   \<and> ''eth-a'' \<in> fst ` set (fst (checkAndUploadInactiveSlugs example_env 361000
         (snd (checkAndUploadInactiveSlugs refusing_env 301000 example_slugs))))"
proof -
  let ?c1 = "checkAndUploadInactiveSlugs example_env 301000 example_slugs"
  let ?c2 = "checkAndUploadInactiveSlugs example_env 361000 (snd ?c1)"
  let ?f1 = "checkAndUploadInactiveSlugs refusing_env 301000 example_slugs"
  let ?f2 = "checkAndUploadInactiveSlugs example_env 361000 (snd ?f1)"
  have d: "distinct (map fst (slugLastActivity example_slugs))" by (simp add: example_slugs_def)
  have c1: "?c1 = (fst ?c1, snd ?c1)" by simp
  have c2: "?c2 = (fst ?c2, snd ?c2)" by simp
  have f1: "?f1 = (fst ?f1, snd ?f1)" by simp
  have f2: "?f2 = (fst ?f2, snd ?f2)" by simp
  have t: "(301000::int) \<le> 361000" by simp
  have m: "(''eth-a'', True) \<in> set (fst ?c1)" by (simp add: example_first_check(1))
  have before: "files example_slugs ''eth-a.jsonl'' \<noteq> None" by (simp add: example_slugs_def)
  have r2nil: "r2Calls example_slugs = []" by (simp add: example_slugs_def)
  have fa: "files example_slugs (slugFileName ''eth-a'') = Some [\<lparr> se_receivedAtMs = 0, se_data = ''{}'' \<rparr>]"
    unfolding example_names by (simp add: example_slugs_def)
  have dn: "distinct (map slugFileName (map fst (slugLastActivity example_slugs)))"
    by (simp add: example_slugs_def example_names)
  note ok = promotion_after_upload
    [where p = "''eth-a.jsonl''" and sl = "''eth-a''"
       and evs = "[\<lparr> se_receivedAtMs = 0, se_data = ''{}'' \<rparr>]", OF d c1 c2 t]
  from ok m fa dn have ok1: "(\<exists>content. content \<noteq> []
         \<and> (r2KeyFor ''eth-a'', content) \<in> set (drop (length (r2Calls example_slugs)) (r2Calls (snd ?c1))))
     \<and> (\<exists>content. set [\<lparr> se_receivedAtMs = 0, se_data = ''{}'' \<rparr>] \<subseteq> set content
         \<and> (r2KeyFor ''eth-a'', content) \<in> set (drop (length (r2Calls example_slugs)) (r2Calls (snd ?c1))))
     \<and> ''eth-a'' \<notin> fst ` set (slugLastActivity (snd ?c1)) \<and> ''eth-a'' \<notin> fst ` set (fst ?c2)"
    by blast
  then have ok2: "(\<exists>content. content \<noteq> [] \<and> (r2KeyFor ''eth-a'', content) \<in> set (r2Calls (snd ?c1)))
     \<and> (\<exists>content. \<lparr> se_receivedAtMs = 0, se_data = ''{}'' \<rparr> \<in> set content
         \<and> (r2KeyFor ''eth-a'', content) \<in> set (r2Calls (snd ?c1)))
     \<and> ''eth-a'' \<notin> fst ` set (slugLastActivity (snd ?c1)) \<and> ''eth-a'' \<notin> fst ` set (fst ?c2)"
    by (simp add: r2nil)
  have refused: "?f1 =
     ([(''eth-a'', False)],
      example_slugs\<lparr> r2Calls := [(r2KeyFor ''eth-a'', [\<lparr> se_receivedAtMs = 0, se_data = ''{}'' \<rparr>])] \<rparr>)"
    by (rule example_refused_check) simp_all
  have fm: "(''eth-a'', False) \<in> set (fst ?f1)" by (simp add: refused)
  have nosucc: "\<forall>s. (s, True) \<in> set (fst ?f1) \<longrightarrow> slugFileName s \<noteq> slugFileName ''eth-a''"
    by (simp add: refused)
  have act: "\<exists>s\<in>fst ` set (slugLastActivity (snd ?f1)). s \<notin> set (inactiveSlugs 361000 (snd ?f1))"
    by (simp add: refused example_still_active) (simp add: example_slugs_def)
  note fail = promotion_after_upload
    [where p = "''eth-a.jsonl''" and sl = "''eth-a''"
       and evs = "[\<lparr> se_receivedAtMs = 0, se_data = ''{}'' \<rparr>]", OF d f1 f2 t]
  from fail fm nosucc act before
  have fl: "''eth-a'' \<in> fst ` set (slugLastActivity (snd ?f1))
      \<and> files (snd ?f1) (slugFileName ''eth-a'') \<noteq> None
      \<and> ''eth-a'' \<in> fst ` set (fst ?f2)"
    unfolding example_names by blast
  show ?thesis
    using d t example_first_check(1,3) before ok2 fl
    unfolding example_names
    by (simp add: refused)
qed

section \<open>Properties of the trade merger\<close>

lemma tsStep_neg: "x < 0 \<Longrightarrow> tsStep x t < 0"
  by (simp add: tsStep_def)

lemma tsFold_neg: "x < 0 \<Longrightarrow> foldl tsStep x ts < 0"
  by (induction ts arbitrary: x) (simp_all add: tsStep_neg)

lemma tsFold_nonneg: "0 \<le> x \<Longrightarrow> \<forall>t\<in>set ts. 0 \<le> t \<Longrightarrow> 0 \<le> foldl tsStep x ts"
  by (induction ts arbitrary: x) (simp_all add: tsStep_def)

lemma tsFold_stable: "y \<noteq> 0 \<Longrightarrow> \<forall>t\<in>set ts. y \<le> t \<Longrightarrow> foldl tsStep y ts = y"
  by (induction ts) (simp_all add: tsStep_def)

lemma tsFold_reset:
  assumes "0 \<le> y" and "\<forall>t\<in>set ps. 0 \<le> t"
  shows "foldl tsStep y (ps @ 0 # qs) = foldl tsStep 0 qs"
proof -
  have "0 \<le> foldl tsStep y ps" using assms by (rule tsFold_nonneg)
  then have "tsStep (foldl tsStep y ps) 0 = 0" by (simp add: tsStep_def)
  then show ?thesis by simp
qed

lemma tsFold_shape: "tsShape x ts (foldl tsStep x ts)"
proof (induction ts rule: rev_induct)
  case Nil
  show ?case by (simp add: tsShape_def)
next
  case (snoc t ts)
  let ?y = "foldl tsStep x ts"
  let ?y' = "tsStep ?y t"
  have fold: "foldl tsStep x (ts @ [t]) = ?y'" by simp
  from snoc.IH consider
      (E) "ts = []"
    | (A) "?y \<noteq> 0" "\<forall>u\<in>set ts. ?y \<le> u"
    | (B) "0 \<le> x" "\<forall>u\<in>set ts. 0 \<le> u" "\<exists>ps qs. ts = ps @ 0 # qs \<and> foldl tsStep 0 qs = ?y"
    unfolding tsShape_def by blast
  then have "tsShape x (ts @ [t]) ?y'"
  proof cases
    case E
    then have y: "?y = x" by simp
    show ?thesis
    proof (cases "?y' = 0")
      case False
      have "?y' \<le> t" by (simp add: tsStep_def)
      with False E show ?thesis by (simp add: tsShape_def)
    next
      case True
      then have "t = 0 \<and> 0 \<le> x" using y by (auto simp: tsStep_def min_def split: if_splits)
      then have "0 \<le> x \<and> (\<forall>u\<in>set (ts @ [t]). 0 \<le> u)
          \<and> ts @ [t] = [] @ 0 # [] \<and> foldl tsStep 0 [] = ?y'"
        using E True by simp
      then show ?thesis unfolding tsShape_def by blast
    qed
  next
    case A
    show ?thesis
    proof (cases "?y' = 0")
      case False
      have "?y' \<le> t" and "?y' \<le> ?y" using A(1) by (simp_all add: tsStep_def)
      with A(2) have "\<forall>u\<in>set (ts @ [t]). ?y' \<le> u" by auto
      with False show ?thesis unfolding tsShape_def by blast
    next
      case True
      then have t0: "t = 0" and ypos: "0 < ?y" using A(1) by (auto simp: tsStep_def min_def split: if_splits)
      have x0: "0 \<le> x"
      proof (rule ccontr)
        assume "\<not> 0 \<le> x"
        then have "?y < 0" by (simp add: tsFold_neg)
        with ypos show False by simp
      qed
      have "\<forall>u\<in>set (ts @ [t]). 0 \<le> u" using A(2) ypos t0 by auto
      moreover have "ts @ [t] = ts @ 0 # [] \<and> foldl tsStep 0 [] = ?y'" using t0 True by simp
      ultimately show ?thesis using x0 unfolding tsShape_def by blast
    qed
  next
    case B
    from B(3) obtain ps qs where ts: "ts = ps @ 0 # qs" and q: "foldl tsStep 0 qs = ?y" by blast
    have y0: "0 \<le> ?y" using B(1,2) by (rule tsFold_nonneg)
    show ?thesis
    proof (cases "0 \<le> t")
      case True
      have "ts @ [t] = ps @ 0 # (qs @ [t]) \<and> foldl tsStep 0 (qs @ [t]) = ?y'" using ts q by simp
      moreover have "\<forall>u\<in>set (ts @ [t]). 0 \<le> u" using B(2) True by auto
      ultimately show ?thesis using B(1) unfolding tsShape_def by blast
    next
      case False
      then have "?y' = t" using y0 by (simp add: tsStep_def)
      then have "?y' \<noteq> 0 \<and> (\<forall>u\<in>set (ts @ [t]). ?y' \<le> u)" using False B(2) by auto
      then show ?thesis unfolding tsShape_def by blast
    qed
  qed
  then show ?case by (simp only: fold)
qed

lemma tsFold_idem: "foldl tsStep (foldl tsStep x ts) ts = foldl tsStep x ts"
proof -
  let ?y = "foldl tsStep x ts"
  from tsFold_shape [of x ts] consider
      (E) "ts = []"
    | (A) "?y \<noteq> 0" "\<forall>u\<in>set ts. ?y \<le> u"
    | (B) "0 \<le> x" "\<forall>u\<in>set ts. 0 \<le> u" "\<exists>ps qs. ts = ps @ 0 # qs \<and> foldl tsStep 0 qs = ?y"
    unfolding tsShape_def by blast
  then show ?thesis
  proof cases
    case E then show ?thesis by simp
  next
    case A then show ?thesis by (rule tsFold_stable)
  next
    case B
    from B(3) obtain ps qs where ts: "ts = ps @ 0 # qs" and q: "foldl tsStep 0 qs = ?y" by blast
    have y0: "0 \<le> ?y" using B(1,2) by (rule tsFold_nonneg)
    have ps: "\<forall>u\<in>set ps. 0 \<le> u" using B(2) ts by simp
    have "foldl tsStep ?y (ps @ 0 # qs) = foldl tsStep 0 qs" using y0 ps by (rule tsFold_reset)
    then show ?thesis using q ts by simp
  qed
qed

subsection \<open>Fields of the update fold\<close>

lemma upd_tx [simp]: "tx (foldl updateExisting x es) = tx x"
  by (induction es arbitrary: x) (simp_all add: updateExisting_def)

lemma upd_slug [simp]: "slug (foldl updateExisting x es) = slug x"
  by (induction es arbitrary: x) (simp_all add: updateExisting_def)

lemma upd_summary [simp]: "marketSummary (foldl updateExisting x es) = marketSummary x"
  by (induction es arbitrary: x) (simp_all add: updateExisting_def)

lemma upd_events [simp]: "marketEvents (foldl updateExisting x es) = marketEvents x"
  by (induction es arbitrary: x) (simp_all add: updateExisting_def)

lemma upd_more [simp]: "MergedTrade.more (foldl updateExisting x es) = MergedTrade.more x"
  by (induction es arbitrary: x) (simp_all add: updateExisting_def)

lemma upd_rest: "rest (foldl updateExisting x es) = (if es = [] then rest x else Some (restOf (last es)))"
  by (induction es arbitrary: x) (simp_all add: updateExisting_def)

lemma upd_timestamp: "timestamp (foldl updateExisting x es) = foldl min (timestamp x) (map ev_t es)"
  by (induction es arbitrary: x) (simp_all add: updateExisting_def)

lemma upd_received: "receivedAtMs (foldl updateExisting x es) = foldl max (receivedAtMs x) (map ev_recv es)"
  by (induction es arbitrary: x) (simp_all add: updateExisting_def)

lemma upd_timestampMs: "timestampMs (foldl updateExisting x es) = foldl tsStep (timestampMs x) (map ev_t es)"
  by (induction es arbitrary: x) (simp_all add: updateExisting_def tsStep_def)

lemma foldl_min_le: "foldl min (a::int) xs \<le> a \<and> (\<forall>x\<in>set xs. foldl min a xs \<le> x)"
proof (induction xs arbitrary: a)
  case Nil show ?case by simp
next
  case (Cons y ys)
  from Cons.IH [of "min a y"] show ?case by auto
qed

lemma foldl_min_fix: "\<forall>x\<in>set xs. (y::int) \<le> x \<Longrightarrow> foldl min y xs = y"
  by (induction xs) (simp_all add: min_absorb1)

lemma foldl_min_idem: "foldl min (foldl min (a::int) xs) xs = foldl min a xs"
  by (rule foldl_min_fix) (simp add: foldl_min_le)

lemma foldl_max_ge: "a \<le> foldl max (a::int) xs \<and> (\<forall>x\<in>set xs. x \<le> foldl max a xs)"
proof (induction xs arbitrary: a)
  case Nil show ?case by simp
next
  case (Cons y ys)
  from Cons.IH [of "max a y"] show ?case by auto
qed

lemma foldl_max_fix: "\<forall>x\<in>set xs. x \<le> (y::int) \<Longrightarrow> foldl max y xs = y"
  by (induction xs) (simp_all add: max_absorb1)

lemma foldl_max_idem: "foldl max (foldl max (a::int) xs) xs = foldl max a xs"
  by (rule foldl_max_fix) (simp add: foldl_max_ge)

lemma upd_fold_idem:
  "foldl updateExisting (foldl updateExisting x es) es = foldl updateExisting x es"
proof (rule MergedTrade.equality)
  show "timestampMs (foldl updateExisting (foldl updateExisting x es) es)
      = timestampMs (foldl updateExisting x es)"
    by (simp only: upd_timestampMs tsFold_idem)
  show "timestamp (foldl updateExisting (foldl updateExisting x es) es)
      = timestamp (foldl updateExisting x es)"
    by (simp only: upd_timestamp foldl_min_idem)
  show "receivedAtMs (foldl updateExisting (foldl updateExisting x es) es)
      = receivedAtMs (foldl updateExisting x es)"
    by (simp only: upd_received foldl_max_idem)
  show "rest (foldl updateExisting (foldl updateExisting x es) es)
      = rest (foldl updateExisting x es)"
    by (simp add: upd_rest)
qed simp_all

lemma upd_context:
  "updateExisting (x\<lparr> marketSummary := a, marketEvents := b \<rparr>) e
     = (updateExisting x e)\<lparr> marketSummary := a, marketEvents := b \<rparr>"
  by (simp add: updateExisting_def)

lemma upd_fold_context:
  "foldl updateExisting (x\<lparr> marketSummary := a, marketEvents := b \<rparr>) es
     = (foldl updateExisting x es)\<lparr> marketSummary := a, marketEvents := b \<rparr>"
  by (induction es arbitrary: x) (simp_all add: upd_context)

subsection \<open>The market context step\<close>

lemma ctx_cases:
  "addMarketContext W mkt trade = trade
   \<or> (\<exists>a b. addMarketContext W mkt trade = trade\<lparr> marketSummary := a, marketEvents := b \<rparr>
        \<and> windowEventsFor W mkt (timestampMs trade) \<noteq> [])"
  by (auto simp: addMarketContext_def Let_def)

lemma ctx_timestampMs [simp]: "timestampMs (addMarketContext W mkt trade) = timestampMs trade"
  by (simp add: addMarketContext_def Let_def)

lemma ctx_tx [simp]: "tx (addMarketContext W mkt trade) = tx trade"
  by (simp add: addMarketContext_def Let_def)

lemma ctx_idem: "addMarketContext W mkt (addMarketContext W mkt trade) = addMarketContext W mkt trade"
  by (simp add: addMarketContext_def Let_def)

lemma ctx_upd_fixed:
  assumes "foldl updateExisting trade es = trade"
  shows "addMarketContext W mkt (foldl updateExisting (addMarketContext W mkt trade) es)
       = addMarketContext W mkt trade"
proof -
  have "foldl updateExisting (addMarketContext W mkt trade) es = addMarketContext W mkt trade"
  proof (cases "windowEventsFor W mkt (timestampMs trade) = []")
    case True
    then show ?thesis using assms by (simp add: addMarketContext_def Let_def)
  next
    case False
    then show ?thesis using assms
      by (simp add: addMarketContext_def Let_def upd_fold_context)
  qed
  then show ?thesis by (simp only: ctx_idem)
qed

subsection \<open>Ordered maps\<close>

lemma setProp_absent: "k \<notin> fst ` set m \<Longrightarrow> setProp k v m = m @ [(k, v)]"
  by (induction m) auto

lemma setProp_present:
  "k \<in> fst ` set m \<Longrightarrow> distinct (map fst m) \<Longrightarrow>
     setProp k v m = map (\<lambda>p. if fst p = k then (k, v) else p) m"
proof (induction m)
  case Nil then show ?case by simp
next
  case (Cons p ps)
  show ?case
  proof (cases "fst p = k")
    case True
    then have "k \<notin> fst ` set ps" using Cons.prems(2) by auto
    then have "map (\<lambda>p. if fst p = k then (k, v) else p) ps = ps"
      by (induction ps) auto
    with True show ?thesis by simp
  next
    case False
    then show ?thesis using Cons by auto
  qed
qed

lemma map_of_None_iff: "map_of m k = None \<longleftrightarrow> k \<notin> fst ` set m"
  by (simp add: map_of_eq_None_iff)

lemma keyed_Nil: "keyed []" by (simp add: keyed_def)

lemma keyed_append:
  "keyed m \<Longrightarrow> k \<notin> fst ` set m \<Longrightarrow> k = keyOf v \<Longrightarrow> tx v \<noteq> [] \<Longrightarrow> keyed (m @ [(k, v)])"
  by (auto simp: keyed_def)

lemma keyed_replace:
  "keyed m \<Longrightarrow> k = keyOf v \<Longrightarrow> tx v \<noteq> [] \<Longrightarrow>
     keyed (map (\<lambda>p. if fst p = k then (k, v) else p) m)"
proof -
  assume a: "keyed m" "k = keyOf v" "tx v \<noteq> []"
  let ?f = "\<lambda>p. if fst p = k then (k, v) else p"
  have "map fst (map ?f m) = map fst m"
    by (induction m) auto
  then have "distinct (map fst (map ?f m))" using a(1) by (simp only: keyed_def)
  moreover have "\<forall>p\<in>set (map ?f m). fst p = keyOf (snd p) \<and> tx (snd p) \<noteq> []"
    using a by (auto simp: keyed_def)
  ultimately show ?thesis unfolding keyed_def by blast
qed

lemma keyed_setProp:
  assumes "keyed m" and "k = keyOf v" and "tx v \<noteq> []"
  shows "keyed (setProp k v m)"
proof (cases "k \<in> fst ` set m")
  case True
  then have "setProp k v m = map (\<lambda>p. if fst p = k then (k, v) else p) m"
    using assms(1) by (simp add: setProp_present keyed_def)
  then show ?thesis using keyed_replace [OF assms] by simp
next
  case False
  then show ?thesis using assms by (simp add: setProp_absent keyed_append)
qed

lemma keys_setProp: "fst ` set (setProp k v m) = insert k (fst ` set m)"
  by (induction m) auto

lemma loadExisting_keyed: "keyed m \<Longrightarrow> keyed (loadExisting m trade)"
  by (auto simp: loadExisting_def Let_def keyed_setProp keyOf_def split: option.splits)

lemma loadExisting_fold_keyed: "keyed m \<Longrightarrow> keyed (foldl loadExisting m ts)"
  by (induction ts arbitrary: m) (simp_all add: loadExisting_keyed)

lemma loadExisting_fresh:
  assumes "distinct (map keyOf ts)" and "\<forall>t\<in>set ts. tx t \<noteq> []"
    and "\<forall>t\<in>set ts. keyOf t \<notin> fst ` set m"
  shows "foldl loadExisting m ts = m @ map (\<lambda>t. (keyOf t, t)) ts"
  using assms
proof (induction ts arbitrary: m)
  case Nil show ?case by simp
next
  case (Cons t ts)
  have none: "map_of m (toLowerCase (tx t)) = None"
    using Cons.prems(3) by (simp add: map_of_None_iff keyOf_def)
  have step: "loadExisting m t = m @ [(keyOf t, t)]"
    using Cons.prems(2,3) none by (simp add: loadExisting_def Let_def setProp_absent keyOf_def)
  have "keyOf t \<notin> keyOf ` set ts" using Cons.prems(1) by simp
  then have "\<forall>u\<in>set ts. keyOf u \<noteq> keyOf t" by (metis image_eqI)
  then have "\<forall>u\<in>set ts. keyOf u \<notin> fst ` set (m @ [(keyOf t, t)])"
    using Cons.prems(3) by auto
  then have "foldl loadExisting (m @ [(keyOf t, t)]) ts = (m @ [(keyOf t, t)]) @ map (\<lambda>t. (keyOf t, t)) ts"
    using Cons.prems(1,2) by (intro Cons.IH) auto
  then show ?case using step by simp
qed

subsection \<open>The REST loop on a map that already holds every key\<close>

lemma processRest_invalid: "\<not> validRest e \<Longrightarrow> processRest m e = m"
  by (auto simp: processRest_def validRest_def)

lemma processRest_present:
  assumes "validRest e" and "distinct (map fst m)" and "evKey e \<in> fst ` set m"
  shows "processRest m e = map (\<lambda>p. if fst p = evKey e then (fst p, updateExisting (snd p) e) else p) m"
proof -
  from assms(3) obtain ex where ex: "map_of m (evKey e) = Some ex"
    by (metis map_of_None_iff not_None_eq)
  have "processRest m e = setProp (evKey e) (updateExisting ex e) m"
    using assms(1) ex by (simp add: processRest_def validRest_def evKey_def Let_def)
  also have "\<dots> = map (\<lambda>p. if fst p = evKey e then (evKey e, updateExisting ex e) else p) m"
    using assms(2,3) by (simp add: setProp_present)
  also have "\<dots> = map (\<lambda>p. if fst p = evKey e then (fst p, updateExisting (snd p) e) else p) m"
  proof (rule map_cong [OF refl])
    fix p assume p: "p \<in> set m"
    show "(if fst p = evKey e then (evKey e, updateExisting ex e) else p)
        = (if fst p = evKey e then (fst p, updateExisting (snd p) e) else p)"
    proof (cases "fst p = evKey e")
      case True
      then have "map_of m (evKey e) = Some (snd p)"
        using p assms(2) by (metis map_of_is_SomeI prod.collapse)
      with ex True show ?thesis by simp
    next
      case False then show ?thesis by simp
    qed
  qed
  finally show ?thesis .
qed

lemma processRest_absent:
  assumes "validRest e" and "evKey e \<notin> fst ` set m"
  shows "processRest m e = m @ [(evKey e, createNew e)]"
proof -
  have "map_of m (evKey e) = None" using assms(2) by (simp add: map_of_None_iff)
  then show ?thesis
    using assms by (simp add: processRest_def validRest_def evKey_def Let_def setProp_absent)
qed

lemma processRest_fold_present:
  assumes "distinct (map fst m)" and "\<forall>e\<in>set es. validRest e \<longrightarrow> evKey e \<in> fst ` set m"
  shows "foldl processRest m es = map (applyRest es) m"
  using assms
proof (induction es arbitrary: m)
  case Nil
  show ?case by (simp add: applyRest_def eventsFor_def)
next
  case (Cons e es)
  let ?m' = "processRest m e"
  have m': "?m' = map (\<lambda>p. if validRest e \<and> fst p = evKey e then (fst p, updateExisting (snd p) e) else p) m"
  proof (cases "validRest e")
    case True
    then show ?thesis using processRest_present [OF True Cons.prems(1)] Cons.prems(2) by simp
  next
    case False
    then show ?thesis by (simp add: processRest_invalid)
  qed
  have keys: "map fst ?m' = map fst m" unfolding m' by (induction m) auto
  have "set (map fst ?m') = set (map fst m)" by (simp only: keys)
  then have kset: "fst ` set ?m' = fst ` set m" by (simp only: set_map)
  have d': "distinct (map fst ?m')" using Cons.prems(1) by (simp only: keys)
  have "\<forall>e\<in>set es. validRest e \<longrightarrow> evKey e \<in> fst ` set ?m'"
    using Cons.prems(2) by (simp only: kset) simp
  with d' have "foldl processRest ?m' es = map (applyRest es) ?m'"
    by (rule Cons.IH)
  also have "\<dots> = map (applyRest (e # es)) m"
    unfolding m' by (auto simp: applyRest_def eventsFor_def)
  finally show ?case by simp
qed

lemma upd_createNew: "updateExisting (createNew e) e = createNew e"
  by (simp add: updateExisting_def createNew_def)

lemma keyOf_upd [simp]: "keyOf (updateExisting x e) = keyOf x"
  by (simp add: keyOf_def updateExisting_def)

lemma tx_upd [simp]: "tx (updateExisting x e) = tx x"
  by (simp add: updateExisting_def)

lemma keyOf_createNew: "validRest e \<Longrightarrow> keyOf (createNew e) = evKey e \<and> tx (createNew e) \<noteq> []"
  by (cases "ev_tx e") (simp_all add: keyOf_def createNew_def evKey_def validRest_def)

lemma eventsFor_snoc:
  "eventsFor k (es @ [e]) = (if validRest e \<and> evKey e = k then eventsFor k es @ [e] else eventsFor k es)"
  by (simp add: eventsFor_def)

lemma restInv_step:
  assumes inv: "restInv es m"
  shows "restInv (es @ [e]) (processRest m e)"
proof -
  from inv have k: "keyed m"
    and ks: "\<forall>e\<in>set es. validRest e \<longrightarrow> evKey e \<in> fst ` set m"
    and ex: "\<forall>p\<in>set m. \<exists>x0. snd p = foldl updateExisting x0 (eventsFor (fst p) es)"
    unfolding restInv_def by blast+
  from k have d: "distinct (map fst m)" by (simp add: keyed_def)
  show ?thesis
  proof (cases "validRest e")
    case False
    then have "processRest m e = m" by (rule processRest_invalid)
    moreover have "\<And>k. eventsFor k (es @ [e]) = eventsFor k es" using False by (simp add: eventsFor_snoc)
    ultimately show ?thesis using k ks ex False unfolding restInv_def by auto
  next
    case True
    show ?thesis
    proof (cases "evKey e \<in> fst ` set m")
      case present: True
      let ?f = "\<lambda>p. if fst p = evKey e then (fst p, updateExisting (snd p) e) else p"
      have m': "processRest m e = map ?f m" using True d present by (rule processRest_present)
      have mf: "map fst (map ?f m) = map fst m" by (induction m) auto
      then have "set (map fst (map ?f m)) = set (map fst m)" by simp
      then have kset: "fst ` set (map ?f m) = fst ` set m" by (simp only: set_map)
      have k1: "keyed (map ?f m)"
      proof -
        have "distinct (map fst (map ?f m))" using d by (simp only: mf)
        moreover have "\<forall>p\<in>set (map ?f m). fst p = keyOf (snd p) \<and> tx (snd p) \<noteq> []"
          using k by (auto simp: keyed_def)
        ultimately show ?thesis unfolding keyed_def by blast
      qed
      have k2: "\<forall>e'\<in>set (es @ [e]). validRest e' \<longrightarrow> evKey e' \<in> fst ` set (map ?f m)"
        using ks present by (simp only: kset) auto
      have k3: "\<forall>p\<in>set (map ?f m). \<exists>x0. snd p = foldl updateExisting x0 (eventsFor (fst p) (es @ [e]))"
      proof
        fix p' assume "p' \<in> set (map ?f m)"
        then have "p' \<in> ?f ` set m" by (simp only: set_map)
        then obtain p where p: "p \<in> set m" and p': "p' = ?f p" by blast
        from ex p obtain x0 where x0: "snd p = foldl updateExisting x0 (eventsFor (fst p) es)" by blast
        show "\<exists>x0. snd p' = foldl updateExisting x0 (eventsFor (fst p') (es @ [e]))"
        proof (cases "fst p = evKey e")
          case True
          then have "snd p' = foldl updateExisting x0 (eventsFor (fst p') (es @ [e]))"
            using p' x0 \<open>validRest e\<close> by (simp add: eventsFor_snoc)
          then show ?thesis ..
        next
          case False
          then have "snd p' = foldl updateExisting x0 (eventsFor (fst p') (es @ [e]))"
            using p' x0 by (auto simp: eventsFor_snoc)
          then show ?thesis ..
        qed
      qed
      show ?thesis unfolding restInv_def m' using k1 k2 k3 by blast
    next
      case absent: False
      have m': "processRest m e = m @ [(evKey e, createNew e)]" using True absent by (rule processRest_absent)
      have kn: "keyOf (createNew e) = evKey e" and tn: "tx (createNew e) \<noteq> []"
        using keyOf_createNew [OF True] by simp_all
      have k1: "keyed (m @ [(evKey e, createNew e)])"
        using k absent kn [symmetric] tn by (rule keyed_append)
      have k2: "\<forall>e'\<in>set (es @ [e]). validRest e' \<longrightarrow> evKey e' \<in> fst ` set (m @ [(evKey e, createNew e)])"
        using ks by auto
      have "\<forall>x\<in>set es. \<not> (validRest x \<and> evKey x = evKey e)" using ks absent by metis
      then have none: "eventsFor (evKey e) es = []"
        by (simp add: eventsFor_def filter_empty_conv)
      have k3: "\<forall>p\<in>set (m @ [(evKey e, createNew e)]).
                  \<exists>x0. snd p = foldl updateExisting x0 (eventsFor (fst p) (es @ [e]))"
      proof
        fix p assume "p \<in> set (m @ [(evKey e, createNew e)])"
        then consider (old) "p \<in> set m" | (new) "p = (evKey e, createNew e)" by auto
        then show "\<exists>x0. snd p = foldl updateExisting x0 (eventsFor (fst p) (es @ [e]))"
        proof cases
          case old
          then have "fst p \<noteq> evKey e" using absent by (metis image_eqI)
          then have "eventsFor (fst p) (es @ [e]) = eventsFor (fst p) es" by (auto simp: eventsFor_snoc)
          then show ?thesis using ex old by simp
        next
          case new
          have "snd p = foldl updateExisting (createNew e) (eventsFor (fst p) (es @ [e]))"
            using new True none by (simp add: eventsFor_snoc upd_createNew)
          then show ?thesis ..
        qed
      qed
      show ?thesis unfolding restInv_def m' using k1 k2 k3 by blast
    qed
  qed
qed

lemma restInv_fold: "keyed m0 \<Longrightarrow> restInv es (foldl processRest m0 es)"
proof (induction es rule: rev_induct)
  case Nil
  have "\<forall>p\<in>set m0. \<exists>x0. snd p = foldl updateExisting x0 (eventsFor (fst p) [])"
    by (simp add: eventsFor_def)
  then show ?case using Nil by (simp add: restInv_def)
next
  case (snoc e es)
  then have "restInv es (foldl processRest m0 es)" by simp
  then have "restInv (es @ [e]) (processRest (foldl processRest m0 es) e)" by (rule restInv_step)
  then show ?case by simp
qed

lemma distinct_map_sort_key: "distinct (map g xs) \<Longrightarrow> distinct (map g (sort_key f xs))"
  by (simp add: distinct_map)

subsection \<open>The updates in place\<close>

text \<open>
  The merger with the objects updated in place returns the list of \<open>mergeTradesW\<close>; in the
  array it leaves every record as it was or as it is returned.
\<close>

lemma deref_map_of: "map_of (deref h m) k = map_option (nth h) (map_of m k)"
  by (induction m) (auto simp: deref_def)

lemma deref_setProp: "deref h (setProp k a m) = setProp k (h ! a) (deref h m)"
  by (induction m) (auto simp: deref_def)

lemma deref_keys: "map fst (deref h m) = map fst m"
  by (induction m) (auto simp: deref_def)

lemma loadExistingAt_deref:
  "deref h (loadExistingAt h m a) = loadExisting (deref h m) (h ! a)"
  by (simp add: loadExistingAt_def loadExisting_def Let_def deref_map_of deref_setProp
      split: option.splits)

lemma loadExistingAt_fold_deref:
  "deref h (foldl (loadExistingAt h) m as) = foldl loadExisting (deref h m) (map (nth h) as)"
  by (induction as arbitrary: m) (simp_all add: loadExistingAt_deref)

lemma setProp_set: "set (setProp k v m) \<subseteq> insert (k, v) (set m)"
  by (induction m) auto

lemma setProp_keys:
  "map fst (setProp k v m) = (if k \<in> fst ` set m then map fst m else map fst m @ [k])"
  by (induction m) auto

lemma setProp_distinct: "distinct (map fst m) \<Longrightarrow> distinct (map fst (setProp k v m))"
  by (auto simp: setProp_keys)

lemma filed_setProp:
  "filed h m \<Longrightarrow> a < length h \<Longrightarrow> k = toLowerCase (tx (h ! a)) \<Longrightarrow> filed h (setProp k a m)"
  unfolding filed_def using setProp_set [of k a m] setProp_distinct [of m k a] by auto

lemma loadExistingAt_filed: "filed h m \<Longrightarrow> a < length h \<Longrightarrow> filed h (loadExistingAt h m a)"
  by (simp add: loadExistingAt_def Let_def filed_setProp split: option.splits)

lemma loadExistingAt_fold_filed:
  "filed h m \<Longrightarrow> \<forall>a\<in>set as. a < length h \<Longrightarrow> filed h (foldl (loadExistingAt h) m as)"
  by (induction as arbitrary: m) (simp_all add: loadExistingAt_filed)

lemma filed_addressed: "filed h m \<Longrightarrow> addressed h m"
proof -
  assume f: "filed h m"
  then have d: "distinct (map fst m)" by (simp add: filed_def)
  then have dm: "distinct m" by (rule distinct_map [THEN iffD1, THEN conjunct1])
  have "inj_on snd (set m)"
  proof (rule inj_onI)
    fix p q assume p: "p \<in> set m" and q: "q \<in> set m" and e: "snd p = snd q"
    then have "fst p = fst q" using f by (simp add: filed_def)
    then show "p = q" using e by (simp add: prod_eq_iff)
  qed
  then have "distinct (map snd m)" using dm by (simp add: distinct_map)
  then show ?thesis using f d by (simp add: addressed_def filed_def)
qed

lemma deref_update_other:
  "a \<notin> snd ` set m \<Longrightarrow> deref (h[a := v]) m = deref h m"
  by (induction m) (auto simp: deref_def)

lemma deref_update:
  assumes "map_of m k = Some a" and "distinct (map snd m)" and "a < length h"
  shows "deref (h[a := v]) m = setProp k v (deref h m)"
  using assms
proof (induction m)
  case Nil then show ?case by simp
next
  case (Cons p ps)
  obtain k0 b0 where p: "p = (k0, b0)" by (cases p)
  show ?case
  proof (cases "k0 = k")
    case True
    then have b: "b0 = a" using Cons.prems(1) p by simp
    then have "a \<notin> snd ` set ps" using Cons.prems(2) p by auto
    then have "deref (h[a := v]) ps = deref h ps" by (rule deref_update_other)
    then show ?thesis using True b p Cons.prems(3) by (simp add: deref_def)
  next
    case False
    then have m: "map_of ps k = Some a" using Cons.prems(1) p by simp
    then have "a \<in> snd ` set ps" by (metis map_of_SomeD image_eqI snd_conv)
    then have "b0 \<noteq> a" using Cons.prems(2) p by auto
    moreover have "deref (h[a := v]) ps = setProp k v (deref h ps)"
      using m Cons.prems(2,3) by (intro Cons.IH) simp_all
    ultimately show ?thesis using False p by (simp add: deref_def)
  qed
qed

lemma deref_extend:
  "\<forall>p\<in>set m. snd p < length h \<Longrightarrow> deref (h @ xs) m = deref h m"
  by (induction m) (auto simp: deref_def nth_append)

lemma processRestAt_step:
  assumes "addressed h m"
  shows "deref (snd (processRestAt (m, h) e)) (fst (processRestAt (m, h) e)) = processRest (deref h m) e
       \<and> addressed (snd (processRestAt (m, h) e)) (fst (processRestAt (m, h) e))"
proof (cases "ev_src e \<noteq> rest_poll \<or> \<not> truthyStr (ev_tx e)")
  case True
  then show ?thesis using assms by (simp add: processRestAt_def processRest_def)
next
  case False
  let ?k = "toLowerCase (the (ev_tx e))"
  show ?thesis
  proof (cases "map_of m ?k")
    case None
    then have absent: "?k \<notin> fst ` set m" by (simp add: map_of_None_iff)
    have r: "processRestAt (m, h) e = (m @ [(?k, length h)], h @ [createNew e])"
      using False None absent by (simp add: processRestAt_def Let_def setProp_absent)
    have lt: "\<forall>p\<in>set m. snd p < length h" using assms by (simp add: addressed_def)
    have d: "deref (h @ [createNew e]) (m @ [(?k, length h)]) = deref h m @ [(?k, createNew e)]"
      using deref_extend [OF lt, of "[createNew e]"] by (simp add: deref_def)
    have "?k \<notin> fst ` set (deref h m)" using absent deref_keys [of h m] by (metis set_map)
    then have p: "processRest (deref h m) e = deref h m @ [(?k, createNew e)]"
      using False None by (simp add: processRest_def Let_def deref_map_of setProp_absent)
    have "length h \<notin> snd ` set m" using lt by auto
    then have a: "addressed (h @ [createNew e]) (m @ [(?k, length h)])"
      using assms absent lt by (auto simp: addressed_def less_Suc_eq)
    show ?thesis by (simp add: r d p a)
  next
    case (Some a)
    have r: "processRestAt (m, h) e = (m, h[a := updateExisting (h ! a) e])"
      using False Some by (simp add: processRestAt_def Let_def)
    have "(?k, a) \<in> set m" using Some by (rule map_of_SomeD)
    then have lt: "a < length h" using assms by (auto simp: addressed_def)
    have d: "deref (h[a := updateExisting (h ! a) e]) m = setProp ?k (updateExisting (h ! a) e) (deref h m)"
      using Some assms lt by (intro deref_update) (simp_all add: addressed_def)
    have p: "processRest (deref h m) e = setProp ?k (updateExisting (h ! a) e) (deref h m)"
      using False Some by (simp add: processRest_def Let_def deref_map_of)
    have a: "addressed (h[a := updateExisting (h ! a) e]) m" using assms by (simp add: addressed_def)
    show ?thesis by (simp add: r d p a)
  qed
qed

lemma processRestAt_fold:
  assumes "addressed h m"
  shows "deref (snd (foldl processRestAt (m, h) es)) (fst (foldl processRestAt (m, h) es))
           = foldl processRest (deref h m) es
       \<and> addressed (snd (foldl processRestAt (m, h) es)) (fst (foldl processRestAt (m, h) es))"
  using assms
proof (induction es arbitrary: m h)
  case Nil then show ?case by simp
next
  case (Cons e es)
  let ?s = "processRestAt (m, h) e"
  have s: "deref (snd ?s) (fst ?s) = processRest (deref h m) e" and a: "addressed (snd ?s) (fst ?s)"
    using processRestAt_step [OF Cons.prems] by simp_all
  have "foldl processRestAt (m, h) (e # es) = foldl processRestAt (fst ?s, snd ?s) es" by simp
  then show ?case using Cons.IH [OF a] s by simp
qed

lemma addMarketContextAt_fold:
  assumes "distinct as" and "\<forall>a\<in>set as. a < length h"
  shows "length (foldl (addMarketContextAt W mkt) h as) = length h
       \<and> (\<forall>a<length h. foldl (addMarketContextAt W mkt) h as ! a =
            (if a \<in> set as then addMarketContext W mkt (h ! a) else h ! a))"
  using assms
proof (induction as arbitrary: h)
  case Nil then show ?case by simp
next
  case (Cons b bs)
  define h' where "h' = addMarketContextAt W mkt h b"
  have l: "length h' = length h" by (simp add: h'_def addMarketContextAt_def)
  have nb: "b \<notin> set bs" and bl: "b < length h" using Cons.prems by simp_all
  have at: "h' ! a = (if a = b then addMarketContext W mkt (h ! b) else h ! a)" if "a < length h" for a
    using that by (simp add: h'_def addMarketContextAt_def)
  have "distinct bs" "\<forall>a\<in>set bs. a < length h'" using Cons.prems l by simp_all
  from Cons.IH [OF this] have ih1: "length (foldl (addMarketContextAt W mkt) h' bs) = length h"
    and ih2: "\<forall>a<length h. foldl (addMarketContextAt W mkt) h' bs ! a =
            (if a \<in> set bs then addMarketContext W mkt (h' ! a) else h' ! a)"
    using l by simp_all
  have f: "foldl (addMarketContextAt W mkt) h (b # bs) = foldl (addMarketContextAt W mkt) h' bs"
    by (simp add: h'_def)
  have "\<forall>a<length h. foldl (addMarketContextAt W mkt) h' bs ! a =
            (if a \<in> set (b # bs) then addMarketContext W mkt (h ! a) else h ! a)"
  proof (intro allI impI)
    fix a assume a: "a < length h"
    show "foldl (addMarketContextAt W mkt) h' bs ! a =
            (if a \<in> set (b # bs) then addMarketContext W mkt (h ! a) else h ! a)"
    proof (cases "a = b")
      case True
      then show ?thesis using ih2 a nb at [OF a] by simp
    next
      case False
      then show ?thesis using ih2 a at [OF a] by simp
    qed
  qed
  then show ?case using ih1 by (simp only: f)
qed

lemma in_place_output:
  "fst (mergeTradesInPlace W restEvents mkt existing) = mergeTradesW W restEvents mkt existing"
proof -
  define m0 where "m0 = foldl (loadExistingAt existing) [] [0..<length existing]"
  define s1 where "s1 = foldl processRestAt (m0, existing) restEvents"
  define h2 where "h2 = foldl (addMarketContextAt W mkt) (snd s1) (map snd (fst s1))"
  have f0: "filed existing m0" unfolding m0_def
    by (rule loadExistingAt_fold_filed) (simp_all add: filed_def)
  then have a0: "addressed existing m0" by (rule filed_addressed)
  have "deref existing m0 =
      foldl loadExisting (deref existing []) (map (nth existing) [0..<length existing])"
    unfolding m0_def by (rule loadExistingAt_fold_deref)
  then have d0: "deref existing m0 = foldl loadExisting [] existing"
    by (simp add: map_nth deref_def)
  have d1: "deref (snd s1) (fst s1) = foldl processRest (foldl loadExisting [] existing) restEvents"
    and a1: "addressed (snd s1) (fst s1)"
    unfolding s1_def using processRestAt_fold [OF a0, of restEvents] by (simp_all add: d0)
  have da: "distinct (map snd (fst s1))" and lt: "\<forall>a\<in>set (map snd (fst s1)). a < length (snd s1)"
    using a1 by (auto simp: addressed_def)
  have ctx: "\<forall>a<length (snd s1). h2 ! a =
      (if a \<in> set (map snd (fst s1)) then addMarketContext W mkt (snd s1 ! a) else snd s1 ! a)"
    unfolding h2_def using addMarketContextAt_fold [OF da lt] by blast
  have "map (\<lambda>(k, a). h2 ! a) (fst s1) = map (\<lambda>(k, a). addMarketContext W mkt (snd s1 ! a)) (fst s1)"
  proof (rule map_cong [OF refl])
    fix p assume p: "p \<in> set (fst s1)"
    then have "snd p \<in> set (map snd (fst s1))" by simp
    moreover from this have "snd p < length (snd s1)" using lt by blast
    ultimately have "h2 ! snd p = addMarketContext W mkt (snd s1 ! snd p)" using ctx by simp
    then show "(case p of (k, a) \<Rightarrow> h2 ! a) = (case p of (k, a) \<Rightarrow> addMarketContext W mkt (snd s1 ! a))"
      by (simp add: case_prod_unfold)
  qed
  also have "\<dots> = map snd (map (\<lambda>(k, trade). (k, addMarketContext W mkt trade)) (deref (snd s1) (fst s1)))"
    by (simp add: deref_def case_prod_unfold comp_def)
  finally have vals: "map (\<lambda>(k, a). h2 ! a) (fst s1)
      = map snd (map (\<lambda>(k, trade). (k, addMarketContext W mkt trade))
          (foldl processRest (foldl loadExisting [] existing) restEvents))"
    by (simp only: d1)
  show ?thesis
    unfolding mergeTradesInPlace_def mergeTradesW_def Let_def
      m0_def [symmetric] s1_def [symmetric] h2_def [symmetric]
    by (simp add: vals)
qed

lemma processRestAt_untouched:
  assumes "length existing \<le> length h"
    and "\<forall>i<length existing. i \<notin> snd ` set m \<longrightarrow> h ! i = existing ! i"
  shows "length existing \<le> length (snd (foldl processRestAt (m, h) es))
       \<and> (\<forall>i<length existing. i \<notin> snd ` set (fst (foldl processRestAt (m, h) es)) \<longrightarrow>
            snd (foldl processRestAt (m, h) es) ! i = existing ! i)"
  using assms
proof (induction es arbitrary: m h)
  case Nil then show ?case by simp
next
  case (Cons e es)
  let ?s = "processRestAt (m, h) e"
  have "length existing \<le> length (snd ?s)
      \<and> (\<forall>i<length existing. i \<notin> snd ` set (fst ?s) \<longrightarrow> snd ?s ! i = existing ! i)"
  proof (cases "ev_src e \<noteq> rest_poll \<or> \<not> truthyStr (ev_tx e)")
    case True
    then show ?thesis using Cons.prems by (simp add: processRestAt_def)
  next
    case False
    let ?k = "toLowerCase (the (ev_tx e))"
    show ?thesis
    proof (cases "map_of m ?k")
      case None
      then have absent: "?k \<notin> fst ` set m" by (simp add: map_of_None_iff)
      have r: "?s = (m @ [(?k, length h)], h @ [createNew e])"
        using False None absent by (simp add: processRestAt_def Let_def setProp_absent)
      show ?thesis using Cons.prems by (auto simp: r nth_append)
    next
      case (Some a)
      have r: "?s = (m, h[a := updateExisting (h ! a) e])"
        using False Some by (simp add: processRestAt_def Let_def)
      have "(?k, a) \<in> set m" using Some by (rule map_of_SomeD)
      then have am: "a \<in> snd ` set m" by force
      have "h[a := updateExisting (h ! a) e] ! i = existing ! i"
        if "i < length existing" "i \<notin> snd ` set m" for i
      proof -
        have "i \<noteq> a" using that(2) am by blast
        then have "h[a := updateExisting (h ! a) e] ! i = h ! i" by simp
        then show ?thesis using Cons.prems(2) that by simp
      qed
      then show ?thesis using Cons.prems(1) by (simp add: r)
    qed
  qed
  then have "length existing \<le> length (snd (foldl processRestAt (fst ?s, snd ?s) es))
       \<and> (\<forall>i<length existing. i \<notin> snd ` set (fst (foldl processRestAt (fst ?s, snd ?s) es)) \<longrightarrow>
            snd (foldl processRestAt (fst ?s, snd ?s) es) ! i = existing ! i)"
    by (intro Cons.IH) simp_all
  then show ?case by simp
qed

lemma in_place_array:
  "length (snd (mergeTradesInPlace W restEvents mkt existing)) = length existing
   \<and> (\<forall>i<length existing.
        snd (mergeTradesInPlace W restEvents mkt existing) ! i = existing ! i
        \<or> snd (mergeTradesInPlace W restEvents mkt existing) ! i
             \<in> set (fst (mergeTradesInPlace W restEvents mkt existing)))"
proof -
  define m0 where "m0 = foldl (loadExistingAt existing) [] [0..<length existing]"
  define s1 where "s1 = foldl processRestAt (m0, existing) restEvents"
  define h2 where "h2 = foldl (addMarketContextAt W mkt) (snd s1) (map snd (fst s1))"
  have f0: "filed existing m0" unfolding m0_def
    by (rule loadExistingAt_fold_filed) (simp_all add: filed_def)
  then have a0: "addressed existing m0" by (rule filed_addressed)
  have a1: "addressed (snd s1) (fst s1)"
    unfolding s1_def using processRestAt_fold [OF a0, of restEvents] by simp
  have da: "distinct (map snd (fst s1))" and lt: "\<forall>a\<in>set (map snd (fst s1)). a < length (snd s1)"
    using a1 by (auto simp: addressed_def)
  have l2: "length h2 = length (snd s1)"
    and ctx: "\<forall>a<length (snd s1). h2 ! a =
      (if a \<in> set (map snd (fst s1)) then addMarketContext W mkt (snd s1 ! a) else snd s1 ! a)"
    unfolding h2_def using addMarketContextAt_fold [OF da lt] by blast+
  have u: "length existing \<le> length (snd s1)"
    and un: "\<forall>i<length existing. i \<notin> snd ` set (fst s1) \<longrightarrow> snd s1 ! i = existing ! i"
    unfolding s1_def using processRestAt_untouched [of existing existing m0 restEvents] by simp_all
  have out: "fst (mergeTradesInPlace W restEvents mkt existing)
      = sort_key timestampMs (map (\<lambda>(k, a). h2 ! a) (fst s1))"
    and arr: "snd (mergeTradesInPlace W restEvents mkt existing) = take (length existing) h2"
    unfolding mergeTradesInPlace_def Let_def
      m0_def [symmetric] s1_def [symmetric] h2_def [symmetric]
    by simp_all
  have len: "length (take (length existing) h2) = length existing" using u l2 by simp
  have each: "take (length existing) h2 ! i = existing ! i
      \<or> take (length existing) h2 ! i \<in> set (sort_key timestampMs (map (\<lambda>(k, a). h2 ! a) (fst s1)))"
    if i: "i < length existing" for i
  proof (cases "i \<in> snd ` set (fst s1)")
    case True
    then obtain p where "p \<in> set (fst s1)" "i = snd p" by blast
    then have "h2 ! i \<in> set (map (\<lambda>(k, a). h2 ! a) (fst s1))"
      by (force simp: case_prod_unfold)
    then show ?thesis using i by simp
  next
    case False
    then have "snd s1 ! i = existing ! i" using un i by blast
    moreover have "h2 ! i = snd s1 ! i" using ctx False i u by simp
    ultimately show ?thesis using i by simp
  qed
  show ?thesis unfolding out arr using len each by blast
qed

subsection \<open>Running the merger again\<close>

text \<open>
  The list returned by the merger holds one record for each key, none with an empty hash,
  one for the key of every polled trade, in ascending order of \<open>timestampMs\<close>; and every
  record of it is left as it is by the updates of its key followed by the market context.
\<close>

lemma merge_output_props:
  assumes "out = mergeTradesW W restEvents mkt existing"
  shows "distinct (map keyOf out)"
    and "\<forall>t\<in>set out. tx t \<noteq> []"
    and "\<forall>t\<in>set out.
           addMarketContext W mkt (foldl updateExisting t (eventsFor (keyOf t) restEvents)) = t"
    and "\<forall>e\<in>set restEvents. validRest e \<longrightarrow> evKey e \<in> keyOf ` set out"
    and "sorted (map timestampMs out)"
proof -
  define M1 where "M1 = foldl processRest (foldl loadExisting [] existing) restEvents"
  define vals where "vals = map (\<lambda>p. addMarketContext W mkt (snd p)) M1"
  have out_eq: "out = sort_key timestampMs vals"
    unfolding assms mergeTradesW_def Let_def vals_def M1_def
    by (simp add: case_prod_unfold comp_def)
  have "keyed (foldl loadExisting [] existing)" using keyed_Nil by (rule loadExisting_fold_keyed)
  then have inv: "restInv restEvents M1" unfolding M1_def by (rule restInv_fold)
  then have k: "keyed M1"
    and ks: "\<forall>e\<in>set restEvents. validRest e \<longrightarrow> evKey e \<in> fst ` set M1"
    and ex: "\<forall>p\<in>set M1. \<exists>x0. snd p = foldl updateExisting x0 (eventsFor (fst p) restEvents)"
    unfolding restInv_def by blast+
  have keys_vals: "map keyOf vals = map fst M1"
    unfolding vals_def using k by (auto simp: keyed_def keyOf_def)
  have d_vals: "distinct (map keyOf vals)" using k by (simp add: keys_vals keyed_def)
  show "distinct (map keyOf out)" unfolding out_eq using d_vals by (rule distinct_map_sort_key)
  have set_out: "set out = set vals" by (simp add: out_eq)
  show "\<forall>t\<in>set out. tx t \<noteq> []"
    unfolding set_out vals_def using k by (auto simp: keyed_def)
  show "\<forall>t\<in>set out.
           addMarketContext W mkt (foldl updateExisting t (eventsFor (keyOf t) restEvents)) = t"
  proof
    fix t assume "t \<in> set out"
    then obtain p where p: "p \<in> set M1" and t: "t = addMarketContext W mkt (snd p)"
      unfolding set_out vals_def by auto
    from ex p obtain x0 where x0: "snd p = foldl updateExisting x0 (eventsFor (fst p) restEvents)" by blast
    have kp: "keyOf (addMarketContext W mkt (snd p)) = fst p"
      using k p by (simp add: keyed_def keyOf_def)
    have "foldl updateExisting (snd p) (eventsFor (fst p) restEvents) = snd p"
      by (subst (1 2) x0) (rule upd_fold_idem)
    then show "addMarketContext W mkt (foldl updateExisting t (eventsFor (keyOf t) restEvents)) = t"
      unfolding t kp by (rule ctx_upd_fixed)
  qed
  have "set (map keyOf out) = set (map keyOf vals)" by (simp add: set_out)
  then have "set (map keyOf out) = set (map fst M1)" by (simp only: keys_vals)
  then have "keyOf ` set out = fst ` set M1" by (simp only: set_map)
  then show "\<forall>e\<in>set restEvents. validRest e \<longrightarrow> evKey e \<in> keyOf ` set out" using ks by simp
  show "sorted (map timestampMs out)" unfolding out_eq by (rule sorted_sort_key)
qed

text \<open>
  On a list with one record for each key, none with an empty hash, that has a record for
  the key of every polled trade, the merger updates every record with the events of its
  key, adds the market context and sorts.
\<close>

lemma merge_of_filed:
  assumes "distinct (map keyOf ys)" and "\<forall>t\<in>set ys. tx t \<noteq> []"
    and "\<forall>e\<in>set restEvents. validRest e \<longrightarrow> evKey e \<in> keyOf ` set ys"
  shows "mergeTradesW W restEvents mkt ys =
           sort_key timestampMs
             (map (\<lambda>t. addMarketContext W mkt
                          (foldl updateExisting t (eventsFor (keyOf t) restEvents))) ys)"
proof -
  define N0 where "N0 = map (\<lambda>t. (keyOf t, t)) ys"
  have l1: "foldl loadExisting [] ys = N0"
    using loadExisting_fresh [of ys "[]"] assms(1,2) by (simp add: N0_def)
  have fN: "map fst N0 = map keyOf ys" by (simp add: N0_def comp_def)
  have dN: "distinct (map fst N0)" using assms(1) by (simp only: fN)
  have "set (map fst N0) = set (map keyOf ys)" by (simp only: fN)
  then have "fst ` set N0 = keyOf ` set ys" by (simp only: set_map)
  then have kN: "\<forall>e\<in>set restEvents. validRest e \<longrightarrow> evKey e \<in> fst ` set N0"
    using assms(3) by simp
  have l2: "foldl processRest N0 restEvents = map (applyRest restEvents) N0"
    using dN kN by (rule processRest_fold_present)
  have vals: "map (\<lambda>p. addMarketContext W mkt (snd p)) (map (applyRest restEvents) N0)
      = map (\<lambda>t. addMarketContext W mkt (foldl updateExisting t (eventsFor (keyOf t) restEvents))) ys"
    by (simp add: N0_def applyRest_def comp_def)
  show ?thesis
    unfolding mergeTradesW_def Let_def l1 l2
    using vals by (simp add: case_prod_unfold comp_def)
qed

text \<open>What the file does not keep of a record plays no part in the merger.\<close>

lemma stringifyVal_defined: "v \<noteq> JUndefined \<Longrightarrow> stringifyVal v \<noteq> JUndefined"
  by (cases v) simp_all

lemma stringify_idem:
  "stringifyVal (stringifyVal v) = stringifyVal v"
  "stringifyElems (stringifyElems xs) = stringifyElems xs"
  "stringifyProps (stringifyProps ps) = stringifyProps ps"
proof (induction v and xs and ps rule: stringifyVal_stringifyElems_stringifyProps.induct)
  case (9 x xs)
  then show ?case by (simp add: stringifyVal_defined)
next
  case (11 p ps)
  then show ?case by (simp add: stringifyVal_defined)
qed simp_all

lemma storedTrade_idem: "storedTrade (storedTrade t) = storedTrade t"
  by (simp add: storedTrade_def option.map_comp comp_def stringify_idem(3))

lemma storedTrade_fields [simp]:
  "tx (storedTrade t) = tx t" "slug (storedTrade t) = slug t"
  "timestamp (storedTrade t) = timestamp t" "timestampMs (storedTrade t) = timestampMs t"
  "receivedAtMs (storedTrade t) = receivedAtMs t"
  "marketSummary (storedTrade t) = marketSummary t" "marketEvents (storedTrade t) = marketEvents t"
  by (simp_all add: storedTrade_def)

lemma keyOf_stored [simp]: "keyOf (storedTrade t) = keyOf t"
  by (simp add: keyOf_def)

lemma upd_stored: "updateExisting (storedTrade t) e = updateExisting t e"
  by (simp add: updateExisting_def storedTrade_def)

lemma upd_fold_stored:
  "es \<noteq> [] \<Longrightarrow> foldl updateExisting (storedTrade t) es = foldl updateExisting t es"
  by (cases es) (simp_all add: upd_stored)

lemma ctx_stored: "addMarketContext W mkt (storedTrade t) = storedTrade (addMarketContext W mkt t)"
  by (simp add: addMarketContext_def storedTrade_def Let_def)

text \<open>
  Claim C1. The merger is a function of its three arguments, so two runs on the same
  arguments give the same list. Run again on its own output with the same events, it gives
  that output back. So does a whole round, through the file: the first round of a restarted
  process, which finds the merged file of the process before it next to the unchanged log,
  leaves that file as it is, whether the log holds a polled trade (the file is merged again
  and written with the same content) or not (the file is not touched); and any round on
  that file and the unchanged log queues nothing or queues a list that is written as the
  file's own content. The list of \<open>mergeTrades\<close> is the list that the merger with its updates
  in place returns (\<open>in_place_output\<close>), and every round parses the merged file anew, so
  the records a call has updated are not seen by a later call.
\<close>

theorem merge_rerun_idempotent:
  "mergeTrades restEvents mkt (mergeTrades restEvents mkt existing)
     = mergeTrades restEvents mkt existing
   \<and> mergeLog allEvents (mergeLog allEvents existing) = mergeLog allEvents existing
   \<and> (mergeRound isFirstRun allEvents (mergeLog allEvents existing) None = None
      \<or> map_option saveMergedTrades
           (mergeRound isFirstRun allEvents (mergeLog allEvents existing) None)
           = Some (mergeLog allEvents existing))"
proof -
  have again: "mergeTradesW W rs ms (mergeTradesW W rs ms ex) = mergeTradesW W rs ms ex"
    and reload: "saveMergedTrades (mergeTradesW W rs ms (saveMergedTrades (mergeTradesW W rs ms ex)))
      = saveMergedTrades (mergeTradesW W rs ms ex)"
    for W rs ms ex
  proof -
    define out where "out = mergeTradesW W rs ms ex"
    define F where "F = (\<lambda>t. addMarketContext W ms (foldl updateExisting t (eventsFor (keyOf t) rs)))"
    define G where "G = (\<lambda>t. if eventsFor (keyOf t) rs = [] then storedTrade t else t)"
    have o1: "distinct (map keyOf out)" and o2: "\<forall>t\<in>set out. tx t \<noteq> []"
      and o3: "\<forall>t\<in>set out. F t = t"
      and o4: "\<forall>e\<in>set rs. validRest e \<longrightarrow> evKey e \<in> keyOf ` set out"
      and o5: "sorted (map timestampMs out)"
      unfolding F_def using merge_output_props [OF out_def] by blast+
    have "mergeTradesW W rs ms out = sort_key timestampMs (map F out)"
      unfolding F_def using o1 o2 o4 by (rule merge_of_filed)
    also have "map F out = out" using o3 by (simp add: map_idI)
    also have "sort_key timestampMs out = out" using o5 by (rule sort_key_id_if_sorted)
    finally show "mergeTradesW W rs ms (mergeTradesW W rs ms ex) = mergeTradesW W rs ms ex"
      by (simp only: out_def)
    let ?file = "map storedTrade out"
    have k: "map keyOf ?file = map keyOf out" by (simp add: comp_def)
    have s1: "distinct (map keyOf ?file)" using o1 by (simp only: k)
    have s2: "\<forall>t\<in>set ?file. tx t \<noteq> []" using o2 by simp
    have "set (map keyOf ?file) = set (map keyOf out)" by (simp only: k)
    then have "keyOf ` set ?file = keyOf ` set out" by (simp only: set_map)
    then have s4: "\<forall>e\<in>set rs. validRest e \<longrightarrow> evKey e \<in> keyOf ` set ?file" using o4 by simp
    have FG: "F (storedTrade t) = G t" if t: "t \<in> set out" for t
    proof (cases "eventsFor (keyOf t) rs = []")
      case True
      then have "addMarketContext W ms t = t" using o3 t by (auto simp: F_def)
      then have "addMarketContext W ms (storedTrade t) = storedTrade t" by (simp add: ctx_stored)
      then show ?thesis using True by (simp add: F_def G_def)
    next
      case False
      then have "F (storedTrade t) = F t" by (simp add: F_def upd_fold_stored)
      then show ?thesis using False o3 t by (simp add: G_def)
    qed
    have "map F ?file = map (\<lambda>t. F (storedTrade t)) out" by (simp add: comp_def)
    also have "\<dots> = map G out" using FG by (intro map_cong) simp_all
    finally have FGm: "map F ?file = map G out" .
    have "map timestampMs (map G out) = map timestampMs out" by (simp add: G_def comp_def)
    then have s5: "sorted (map timestampMs (map G out))" using o5 by (simp only:)
    have "mergeTradesW W rs ms ?file = sort_key timestampMs (map F ?file)"
      unfolding F_def using s1 s2 s4 by (rule merge_of_filed)
    also have "\<dots> = map G out" unfolding FGm using s5 by (rule sort_key_id_if_sorted)
    finally have m: "mergeTradesW W rs ms ?file = map G out" .
    have "map storedTrade (map G out) = map storedTrade out"
      by (simp add: G_def comp_def storedTrade_idem)
    then show "saveMergedTrades (mergeTradesW W rs ms (saveMergedTrades (mergeTradesW W rs ms ex)))
        = saveMergedTrades (mergeTradesW W rs ms ex)"
      unfolding saveMergedTrades_def out_def [symmetric] m .
  qed
  define rs where "rs = filter (\<lambda>e. ev_src e = rest_poll \<and> truthyStr (ev_tx e)) allEvents"
  define ms where "ms = filter (\<lambda>e. ev_src e = market_ws) allEvents"
  have a: "mergeTrades restEvents mkt (mergeTrades restEvents mkt existing)
      = mergeTrades restEvents mkt existing"
    by (simp add: mergeTrades_def again)
  have r: "saveMergedTrades (mergeTrades rs ms (saveMergedTrades (mergeTrades rs ms ex)))
      = saveMergedTrades (mergeTrades rs ms ex)" for ex
    by (simp add: mergeTrades_def reload)
  have log: "mergeLog allEvents ex =
      (if rs = [] then ex else saveMergedTrades (mergeTrades rs ms ex))" for ex
    by (simp add: mergeLog_def mergeRound_def Let_def rs_def ms_def)
  have b: "mergeLog allEvents (mergeLog allEvents existing) = mergeLog allEvents existing"
  proof (cases "rs = []")
    case True
    then show ?thesis by (simp add: log)
  next
    case False
    then show ?thesis by (simp add: log r)
  qed
  have c: "mergeRound isFirstRun allEvents (mergeLog allEvents existing) None = None
      \<or> map_option saveMergedTrades
           (mergeRound isFirstRun allEvents (mergeLog allEvents existing) None)
           = Some (mergeLog allEvents existing)"
  proof (cases "rs = []")
    case True
    then have "mergeRound isFirstRun allEvents (mergeLog allEvents existing) None = None"
      by (simp add: mergeRound_def Let_def rs_def)
    then show ?thesis by (rule disjI1)
  next
    case False
    then have m: "mergeLog allEvents existing = saveMergedTrades (mergeTrades rs ms existing)"
      by (simp add: log)
    have "saveMergedTrades (mergeTrades rs ms (mergeLog allEvents existing))
        = mergeLog allEvents existing"
      unfolding m by (rule r)
    then show ?thesis
      using False unfolding mergeRound_def Let_def rs_def [symmetric] ms_def [symmetric]
      by auto
  qed
  show ?thesis using a b c by blast
qed

lemma snapshot_simps [simp]:
  "ev_t (example_snapshot t) = t" "ev_src (example_snapshot t) = market_ws"
  by (simp_all add: example_snapshot_def)

lemma trade_simps [simp]:
  "ev_t (example_trade t) = t" "ev_src (example_trade t) = rest_poll"
  "ev_tx (example_trade t) = Some ''0xabc''" "validRest (example_trade t)"
  by (simp_all add: example_trade_def validRest_def)

text \<open>
  A log that holds a snapshot and no polled trade: the round queues nothing and the merged
  file stays as it is.
\<close>

lemma round_without_trades:
  "mergeRound isFirstRun [example_snapshot t] existing existingPending = existingPending"
  "mergeLog [example_snapshot t] existing = existing"
  by (simp_all add: mergeRound_def mergeLog_def Let_def)

lemma createNew_timestampMs [simp]: "timestampMs (createNew e) = ev_t e"
  by (simp add: createNew_def)

lemma createNew_context [simp]:
  "marketSummary (createNew e) = None" "marketEvents (createNew e) = None"
  by (simp_all add: createNew_def)

lemma merge_single:
  "validRest e \<Longrightarrow> mergeTradesW W [e] mkt [] = [addMarketContext W mkt (createNew e)]"
  by (simp add: mergeTradesW_def processRest_absent)

lemma ctx_unchanged:
  "windowEventsFor W mkt (timestampMs trade) = [] \<Longrightarrow> addMarketContext W mkt trade = trade"
  by (simp add: addMarketContext_def)

lemma ctx_marketEvents:
  assumes "windowEventsFor W mkt (timestampMs trade) = win" and "win \<noteq> []"
  shows "marketEvents (addMarketContext W mkt trade) =
           (if length win \<le> MAX_RAW_EVENTS_PER_TRADE then Some (map rawOf (sort_key ev_t win)) else None)"
    and "marketSummary (addMarketContext W mkt trade) =
           Some (summaryOf W (timestampMs trade) (sort_key ev_t win))"
  using assms by (auto simp: addMarketContext_def Let_def)

lemma window_primary:
  "collectWindow (T - W) (T + W) mkt \<noteq> [] \<Longrightarrow>
     windowEventsFor W mkt T = collectWindow (T - W) (T + W) mkt"
  by (simp add: windowEventsFor_def Let_def)

lemma window_fallback:
  assumes "collectWindow (T - W) (T + W) mkt = []"
    and "findClosest T mkt None = Some (c, d)" and "d \<le> 30000"
  shows "windowEventsFor W mkt T =
           sort_key ev_t (collectWindow (max (ev_t c - W) (T - 10000)) (min (ev_t c + W) (T + 10000)) mkt)"
proof -
  have "mkt \<noteq> []" using assms(2) by auto
  then show ?thesis using assms by (simp add: windowEventsFor_def Let_def)
qed

lemma window_none:
  assumes "collectWindow (T - W) (T + W) mkt = []"
    and "findClosest T mkt None = None \<or> (\<exists>c d. findClosest T mkt None = Some (c, d) \<and> d > 30000)"
  shows "windowEventsFor W mkt T = []"
  using assms by (auto simp: windowEventsFor_def Let_def)

text \<open>
  Claim C2 says that the raw list of every trade holds exactly the snapshots of the
  primary window. A trade at 1000 with the only snapshot at 10000 has an empty primary
  window \<open>[-2000, 4000]\<close>; the fallback collects the snapshot at 10000 and the raw list
  holds it.
\<close>

theorem window_counterexample:
  "map (map_option (map raw_t) \<circ> marketEvents)
       (mergeTrades [example_trade 1000] [example_snapshot 10000] []) = [Some [10000]]
   \<and> \<not> inWindow (1000 - MARKET_WINDOW_MS) (1000 + MARKET_WINDOW_MS) (example_snapshot 10000)"
proof -
  let ?s = "example_snapshot 10000"
  have p: "collectWindow (1000 - 3000) (1000 + 3000) [?s] = []"
    by (simp add: collectWindow_def inWindow_def)
  have c: "findClosest 1000 [?s] None = Some (?s, 9000)" by simp
  have "windowEventsFor 3000 [?s] 1000 =
      sort_key ev_t (collectWindow (max (ev_t ?s - 3000) (1000 - 10000)) (min (ev_t ?s + 3000) (1000 + 10000)) [?s])"
    using p c by (rule window_fallback) simp
  also have "\<dots> = [?s]" by (simp add: collectWindow_def inWindow_def)
  finally have w: "windowEventsFor 3000 [?s] (timestampMs (createNew (example_trade 1000))) = [?s]" by simp
  have "marketEvents (addMarketContext 3000 [?s] (createNew (example_trade 1000))) = Some [rawOf ?s]"
    using ctx_marketEvents(1) [OF w] by (simp add: MAX_RAW_EVENTS_PER_TRADE_def)
  then show ?thesis
    by (simp add: mergeTrades_def MARKET_WINDOW_MS_def merge_single rawOf_def inWindow_def)
qed

lemma merge_output_fixed:
  assumes "trade \<in> set (mergeTradesW W restEvents mkt existing)"
  shows "addMarketContext W mkt trade = trade"
proof -
  from assms obtain x where "trade = addMarketContext W mkt x"
    by (auto simp: mergeTradesW_def Let_def)
  then show ?thesis by (simp add: ctx_idem)
qed

lemma collectWindow_set:
  "set (collectWindow lo hi mkt) = {e \<in> set mkt. ev_src e = market_ws \<and> lo \<le> ev_t e \<and> ev_t e \<le> hi}"
  by (auto simp: collectWindow_def inWindow_def)

lemma raw_times: "map raw_t (map rawOf es) = map ev_t es"
  by (simp add: rawOf_def comp_def)

text \<open>
  Claim C2, as the code has it. For a merged trade with trade time \<open>T\<close> whose primary window
  \<open>[T - W, T + W]\<close>, both ends included, holds at least one market-feed snapshot and fewer
  than 100, the raw list is made of exactly the market-feed snapshots of the log whose time
  lies in that window, in ascending order of time. The width is an argument of the model;
  the program runs with \<open>W = MARKET_WINDOW_MS = 3000\<close>.
\<close>

theorem window_retained:
  assumes "trade \<in> set (mergeTradesW W restEvents mkt existing)"
    and "collectWindow (timestampMs trade - W) (timestampMs trade + W) mkt = win"
    and "win \<noteq> []"
    and "length win < MAX_RAW_EVENTS_PER_TRADE"
  shows "marketEvents trade = Some (map rawOf (sort_key ev_t win))
       \<and> sorted (map raw_t (map rawOf (sort_key ev_t win)))
       \<and> set (sort_key ev_t win) =
           {e \<in> set mkt. ev_src e = market_ws
              \<and> timestampMs trade - W \<le> ev_t e \<and> ev_t e \<le> timestampMs trade + W}"
proof -
  have fixed: "addMarketContext W mkt trade = trade" using assms(1) by (rule merge_output_fixed)
  have w: "windowEventsFor W mkt (timestampMs trade) = win"
    using assms(2,3) window_primary [of "timestampMs trade" W mkt] by simp
  have "marketEvents (addMarketContext W mkt trade) = Some (map rawOf (sort_key ev_t win))"
    using ctx_marketEvents(1) [OF w assms(3)] assms(4) by simp
  then have a: "marketEvents trade = Some (map rawOf (sort_key ev_t win))" by (simp only: fixed)
  have b: "sorted (map raw_t (map rawOf (sort_key ev_t win)))"
    by (simp only: raw_times sorted_sort_key)
  have c: "set (sort_key ev_t win) =
           {e \<in> set mkt. ev_src e = market_ws
              \<and> timestampMs trade - W \<le> ev_t e \<and> ev_t e \<le> timestampMs trade + W}"
    using assms(2) collectWindow_set [of "timestampMs trade - W" "timestampMs trade + W" mkt] by simp
  show ?thesis using a b c by blast
qed

text \<open>
  The program's width of 3000 ms: a trade at 10000 and snapshots logged at 13000, 7000,
  20000 and 9990 leave the raw list 7000, 9990, 13000. And the example of the claim, for
  the merger run at the width 5: a trade at 1000 and snapshots logged at 1002, 997, 2000
  and 999 leave 997, 999, 1002.
\<close>

theorem window_retained_witness:
  "map (map_option (map raw_t) \<circ> marketEvents)
       (mergeTrades [example_trade 10000]
          [example_snapshot 13000, example_snapshot 7000, example_snapshot 20000,
           example_snapshot 9990] [])
     = [Some [7000, 9990, 13000]]
   \<and> map (map_option (map raw_t) \<circ> marketEvents)
       (mergeTradesW 5 [example_trade 1000]
          [example_snapshot 1002, example_snapshot 997, example_snapshot 2000, example_snapshot 999] [])
     = [Some [997, 999, 1002]]"
proof -
  let ?log = "[example_snapshot 13000, example_snapshot 7000, example_snapshot 20000,
               example_snapshot 9990]"
  let ?t = "addMarketContext 3000 ?log (createNew (example_trade 10000))"
  let ?win = "[example_snapshot 13000, example_snapshot 7000, example_snapshot 9990]"
  have out: "mergeTradesW 3000 [example_trade 10000] ?log [] = [?t]" by (simp add: merge_single)
  have m: "?t \<in> set (mergeTradesW 3000 [example_trade 10000] ?log [])" by (simp only: out) simp
  have w: "collectWindow (timestampMs ?t - 3000) (timestampMs ?t + 3000) ?log = ?win"
    by (simp add: collectWindow_def inWindow_def)
  have n: "?win \<noteq> []" by simp
  have l: "length ?win < MAX_RAW_EVENTS_PER_TRADE" by (simp add: MAX_RAW_EVENTS_PER_TRADE_def)
  have s: "sort_key ev_t ?win = [example_snapshot 7000, example_snapshot 9990, example_snapshot 13000]"
    by simp
  have "marketEvents ?t = Some (map rawOf (sort_key ev_t ?win))"
    using window_retained [OF m w n l] by blast
  then have first: "map (map_option (map raw_t) \<circ> marketEvents)
       (mergeTrades [example_trade 10000] ?log []) = [Some [7000, 9990, 13000]]"
    by (simp only: mergeTrades_def MARKET_WINDOW_MS_def out s) (simp add: rawOf_def)
  let ?log5 = "[example_snapshot 1002, example_snapshot 997, example_snapshot 2000, example_snapshot 999]"
  let ?t5 = "addMarketContext 5 ?log5 (createNew (example_trade 1000))"
  let ?win5 = "[example_snapshot 1002, example_snapshot 997, example_snapshot 999]"
  have out5: "mergeTradesW 5 [example_trade 1000] ?log5 [] = [?t5]" by (simp add: merge_single)
  have m5: "?t5 \<in> set (mergeTradesW 5 [example_trade 1000] ?log5 [])" by (simp only: out5) simp
  have w5: "collectWindow (timestampMs ?t5 - 5) (timestampMs ?t5 + 5) ?log5 = ?win5"
    by (simp add: collectWindow_def inWindow_def)
  have n5: "?win5 \<noteq> []" by simp
  have l5: "length ?win5 < MAX_RAW_EVENTS_PER_TRADE" by (simp add: MAX_RAW_EVENTS_PER_TRADE_def)
  have s5: "sort_key ev_t ?win5 = [example_snapshot 997, example_snapshot 999, example_snapshot 1002]"
    by simp
  have "marketEvents ?t5 = Some (map rawOf (sort_key ev_t ?win5))"
    using window_retained [OF m5 w5 n5 l5] by blast
  then have second: "map (map_option (map raw_t) \<circ> marketEvents)
       (mergeTradesW 5 [example_trade 1000] ?log5 []) = [Some [997, 999, 1002]]"
    by (simp only: out5 s5) (simp add: rawOf_def)
  show ?thesis using first second by (rule conjI)
qed

subsection \<open>The closest snapshot\<close>



lemma findClosest_Some:
  assumes "findClosest T es acc = Some (c, d)"
  shows "(acc = Some (c, d) \<or> (c \<in> set es \<and> ev_src c = market_ws \<and> d = \<bar>ev_t c - T\<bar>))
       \<and> (\<forall>e\<in>set es. ev_src e = market_ws \<longrightarrow> d \<le> \<bar>ev_t e - T\<bar>)
       \<and> (\<forall>c0 d0. acc = Some (c0, d0) \<longrightarrow> d \<le> d0)"
  using assms
proof (induction es arbitrary: acc)
  case Nil
  then show ?case by simp
next
  case (Cons e es)
  show ?case
  proof (cases "ev_src e = market_ws")
    case False
    then have "findClosest T es acc = Some (c, d)" using Cons.prems by simp
    from Cons.IH [OF this] False show ?thesis by auto
  next
    case True
    let ?diff = "\<bar>ev_t e - T\<bar>"
    show ?thesis
    proof (cases acc)
      case None
      then have "findClosest T es (Some (e, ?diff)) = Some (c, d)" using Cons.prems True by (simp add: Let_def)
      from Cons.IH [OF this] True None show ?thesis by auto
    next
      case (Some p)
      obtain c0 d0 where p: "p = (c0, d0)" by (cases p)
      show ?thesis
      proof (cases "?diff < d0")
        case less: True
        then have "findClosest T es (Some (e, ?diff)) = Some (c, d)"
          using Cons.prems True Some p by (simp add: Let_def)
        from Cons.IH [OF this] True Some p less show ?thesis by auto
      next
        case geq: False
        then have "findClosest T es acc = Some (c, d)"
          using Cons.prems True Some p by (simp add: Let_def)
        from Cons.IH [OF this] True Some p geq show ?thesis by auto
      qed
    qed
  qed
qed


lemma widened_set:
  "set (collectWindow (max (ev_t c - W) (T - 10000)) (min (ev_t c + W) (T + 10000)) mkt) =
     {e \<in> set mkt. ev_src e = market_ws \<and> \<bar>ev_t e - ev_t c\<bar> \<le> W \<and> \<bar>ev_t e - T\<bar> \<le> 10000}"
  unfolding collectWindow_set by auto



text \<open>
  Between 10000 and 30000 ms the test \<^verbatim>\<open>minDiff <= 30000\<close> lets the second collection run,
  but its window is cut at \<open>T - 10000\<close> and \<open>T + 10000\<close>, where no snapshot lies when the
  closest one is farther than that: nothing is collected, although the source says of this
  branch \<^verbatim>\<open>If closest event is within 30 seconds, use it (extended window for early trades)\<close>.
  A trade with its only snapshot 20 s later is merged without a summary.
\<close>

lemma fallback_beyond_bound:
  assumes "collectWindow (T - W) (T + W) mkt = []"
    and "findClosest T mkt None = Some (c, d)" and "10000 < d"
  shows "windowEventsFor W mkt T = []"
proof (cases "d \<le> 30000")
  case True
  have near: "\<forall>e\<in>set mkt. ev_src e = market_ws \<longrightarrow> d \<le> \<bar>ev_t e - T\<bar>"
    using findClosest_Some [OF assms(2)] by blast
  have "set (collectWindow (max (ev_t c - W) (T - 10000)) (min (ev_t c + W) (T + 10000)) mkt) = {}"
    unfolding widened_set using near assms(3) by fastforce
  then have "collectWindow (max (ev_t c - W) (T - 10000)) (min (ev_t c + W) (T + 10000)) mkt = []"
    by simp
  then show ?thesis using window_fallback [OF assms(1,2) True] by simp
next
  case False
  then show ?thesis using window_none [OF assms(1)] assms(2) by auto
qed

lemma fallback_example_20s:
  "map marketSummary (mergeTrades [example_trade 1000000] [example_snapshot 1020000] []) = [None]"
proof -
  let ?s = "example_snapshot 1020000"
  let ?tr = "createNew (example_trade 1000000)"
  have p: "collectWindow (1000000 - 3000) (1000000 + 3000) [?s] = []"
    by (simp add: collectWindow_def inWindow_def)
  have c: "findClosest 1000000 [?s] None = Some (?s, 20000)" by simp
  have "windowEventsFor 3000 [?s] 1000000 = []"
    using p c by (rule fallback_beyond_bound) simp
  then have "addMarketContext 3000 [?s] ?tr = ?tr" by (simp add: ctx_unchanged)
  then show ?thesis by (simp add: mergeTrades_def MARKET_WINDOW_MS_def merge_single)
qed

text \<open>
  Claim C7 says that the raw list is stored only below the cap of 100 snapshots. The test
  of the code is \<^verbatim>\<open>windowEvents.length <= MAX_RAW_EVENTS_PER_TRADE\<close>, while the constant is
  declared with the comment \<^verbatim>\<open>Only store raw events if below this threshold\<close>: with
  exactly 100 snapshots in the window the raw list is stored, with its 100 entries.
\<close>

theorem raw_list_kept_at_cap:
  "map (map_option length \<circ> marketEvents)
       (mergeTrades [example_trade 1000] (map (\<lambda>i. example_snapshot (int i)) [1000..<1100]) [])
     = [Some 100]
   \<and> MAX_RAW_EVENTS_PER_TRADE = 100"
proof -
  let ?log = "map (\<lambda>i. example_snapshot (int i)) [1000..<1100]"
  let ?tr = "createNew (example_trade 1000)"
  have "\<forall>e\<in>set ?log. inWindow (1000 - 3000) (1000 + 3000) e"
    by (auto simp: inWindow_def simp del: upt_rec_numeral)
  then have cw: "collectWindow (1000 - 3000) (1000 + 3000) ?log = ?log"
    unfolding collectWindow_def by (rule filter_True)
  have len: "length ?log = 100" by (simp del: upt_rec_numeral)
  then have ne: "?log \<noteq> []" by auto
  have w: "windowEventsFor 3000 ?log (timestampMs ?tr) = ?log"
    using window_primary [of 1000 3000 ?log] cw ne by simp
  have "marketEvents (addMarketContext 3000 ?log ?tr) = Some (map rawOf (sort_key ev_t ?log))"
    using ctx_marketEvents(1) [OF w ne] len by (simp add: MAX_RAW_EVENTS_PER_TRADE_def del: upt_rec_numeral)
  then have "map_option length (marketEvents (addMarketContext 3000 ?log ?tr)) = Some 100"
    using len by (simp del: upt_rec_numeral)
  then show ?thesis
    by (simp add: mergeTrades_def MARKET_WINDOW_MS_def merge_single MAX_RAW_EVENTS_PER_TRADE_def
        del: upt_rec_numeral)
qed

end
